theory Spec2Isabelle
  imports Main "HOL-Library.AList"
begin

section \<open>Characters and the string primitives of the host language\<close>

text \<open>
  Source texts are modelled as \<open>string\<close> (lists of 8-bit characters); offsets are
  natural numbers. The few characters that cannot be typed inside a string literal get
  a name.
\<close>

abbreviation TAB :: char where "TAB \<equiv> CHR 0x09"
abbreviation NL :: char where "NL \<equiv> CHR 0x0A"
abbreviation DQ :: char where "DQ \<equiv> CHR 0x22"
abbreviation SQ :: char where "SQ \<equiv> CHR 0x27"
abbreviation BS :: char where "BS \<equiv> CHR 0x5C"

text \<open>
  \<open>String.prototype.charAt\<close>: the one-character string at an offset, the empty
  string out of range.
\<close>

definition charAt :: "string \<Rightarrow> nat \<Rightarrow> string" where
  "charAt s k = (if k < length s then [s ! k] else [])"

text \<open>\<open>String.prototype.slice(a, b)\<close> and \<open>slice(a)\<close> for non-negative offsets.\<close>

definition slice :: "string \<Rightarrow> nat \<Rightarrow> nat \<Rightarrow> string" where
  "slice s a b = take (b - a) (drop a s)"

definition sliceFrom :: "string \<Rightarrow> nat \<Rightarrow> string" where
  "sliceFrom s a = drop a s"

text \<open>\<open>String.prototype.startsWith(t, i)\<close>.\<close>

definition startsWith :: "string \<Rightarrow> string \<Rightarrow> nat \<Rightarrow> bool" where
  "startsWith s t i = (take (length t) (drop i s) = t)"

text \<open>
  The character classes of the regular expressions in the source. \<open>\s\<close> is the
  white space of the language restricted to the 8-bit range, \<open>\w\<close> is
  \<open>[A-Za-z0-9_]\<close>.
\<close>

definition is_hws :: "char \<Rightarrow> bool" where
  "is_hws c = (c = TAB \<or> c = CHR '' '')"

definition is_space :: "char \<Rightarrow> bool" where
  "is_space c = (c = TAB \<or> c = NL \<or> c = CHR 0x0B \<or> c = CHR 0x0C \<or> c = CHR 0x0D
     \<or> c = CHR '' '' \<or> c = CHR 0xA0)"

definition is_word :: "char \<Rightarrow> bool" where
  "is_word c = (let n = (of_char c :: nat) in
     (48 \<le> n \<and> n \<le> 57) \<or> (65 \<le> n \<and> n \<le> 90) \<or> n = 95 \<or> (97 \<le> n \<and> n \<le> 122))"

text \<open>
  The one-character tests \<open>/^[\t ]$/.test(x)\<close>, \<open>/^\s$/.test(x)\<close> and
  \<open>/^[\n]$/.test(x)\<close>, applied to the result of \<open>charAt\<close>.
\<close>

fun testHws :: "string \<Rightarrow> bool" where
  "testHws [c] = is_hws c"
| "testHws _ = False"

fun testSpace :: "string \<Rightarrow> bool" where
  "testSpace [c] = is_space c"
| "testSpace _ = False"

fun testNewline :: "string \<Rightarrow> bool" where
  "testNewline [c] = (c = NL)"
| "testNewline _ = False"

text \<open>
  The loop \<open>while (end < content.length && cond(end)) ++end\<close>, which the matchers use
  with several conditions.
\<close>

function advanceWhile :: "(nat \<Rightarrow> bool) \<Rightarrow> nat \<Rightarrow> nat \<Rightarrow> nat" where
  "advanceWhile cond n e = (if e < n \<and> cond e then advanceWhile cond n (e + 1) else e)"
  by pat_completeness auto
termination
  by (relation "measure (\<lambda>(cond, n, e). n - e)") auto

declare advanceWhile.simps [simp del]

section \<open>Regions and the language descriptor\<close>

record SourcePiece =
  start :: nat
  content :: string

datatype error = UnterminatedLiteral | UnterminatedBlockComment

record LanguageConfig =
  macroMark :: string
  quoteMark :: "string list"
  inlineCommentMark :: string
  blockCommentMark :: "string \<times> string"

text \<open>
  Modelled from the spec: the constant \<open>languageConfig\<close> of \<open>@/config/immutable\<close> is
  not among the sources; the spec gives its value for the C family: macro mark \<open>#\<close>,
  quote marks \<open>"\<close> and \<open>'\<close>, line comment \<open>//\<close>, block comment \<open>/*\<close> and \<open>*/\<close>.
\<close>

definition languageConfig :: LanguageConfig where
  "languageConfig = \<lparr> macroMark = ''#'', quoteMark = [[DQ], [SQ]],
     inlineCommentMark = ''//'', blockCommentMark = (''/*'', ''*/'') \<rparr>"

section \<open>The region matchers\<close>

text \<open>
  \<open>while (start > 0 && /^[\t ]$/.test(content.charAt(start-1))) --start\<close>: the start of
  a macro or block comment moves left over tabs and spaces.
\<close>

fun backOff :: "string \<Rightarrow> nat \<Rightarrow> nat" where
  "backOff src 0 = 0"
| "backOff src (Suc n) = (if testHws (charAt src n) then backOff src n else Suc n)"

definition skipSpace :: "string \<Rightarrow> nat \<Rightarrow> nat" where
  "skipSpace src e = advanceWhile (\<lambda>k. testSpace (charAt src k)) (length src) e"

lemma advanceWhile_step:
  "e < n \<Longrightarrow> cond e \<Longrightarrow> advanceWhile cond n e = advanceWhile cond n (Suc e)"
  by (subst advanceWhile.simps) simp

lemma advanceWhile_stop: "\<not> (e < n \<and> cond e) \<Longrightarrow> advanceWhile cond n e = e"
  by (subst advanceWhile.simps) auto

lemma advanceWhile_ge: "e \<le> advanceWhile cond n e"
proof (induction cond n e rule: advanceWhile.induct)
  case (1 cond n e)
  show ?case
  proof (cases "e < n \<and> cond e")
    case True
    with 1 have "e + 1 \<le> advanceWhile cond n (e + 1)" by simp
    with True show ?thesis by (simp add: advanceWhile_step)
  next
    case False
    then show ?thesis by (simp add: advanceWhile_stop)
  qed
qed

lemma skipSpace_ge: "e \<le> skipSpace src e"
  by (simp add: skipSpace_def advanceWhile_ge)

text \<open>
  The scan of \<open>matchMacro\<close>: the \<open>for\<close> loop over \<open>end\<close>. A character that is neither a
  backslash nor a newline is passed; a newline ends the loop; after a backslash the
  inner loop runs over white space, \<open>--end\<close> steps back and the loop's \<open>++end\<close> forward
  again, so the scan resumes where the inner loop stopped.
\<close>

function macroEnd :: "string \<Rightarrow> nat \<Rightarrow> nat" where
  "macroEnd src e =
     (if e < length src then
        (let letter = charAt src e in
         if letter \<noteq> [BS] \<and> letter \<noteq> [NL] then macroEnd src (e + 1)
         else if letter = [NL] then e
         else macroEnd src (skipSpace src (e + 1)))
      else e)"
  by pat_completeness auto
termination
proof (relation "measure (\<lambda>(src, e). length src - e)", goal_cases)
  case 1
  show ?case by simp
next
  case (2 src e letter)
  then show ?case by simp
next
  case (3 src e letter)
  have "e + 1 \<le> skipSpace src (e + 1)" by (rule skipSpace_ge)
  with 3 show ?case by simp
qed

declare macroEnd.simps [simp del]

definition matchMacro :: "string \<Rightarrow> nat \<Rightarrow> SourcePiece" where
  "matchMacro src st =
     (let s = backOff src st;
          e = macroEnd src (s + 1)
      in \<lparr> start = s, content = slice src s (e + 1) \<rparr>)"

text \<open>
  The scan of \<open>matchLiteral\<close>: a backslash skips the character after it, the quote that
  opened the literal ends the loop.
\<close>

function literalEnd :: "string \<Rightarrow> string \<Rightarrow> nat \<Rightarrow> nat" where
  "literalEnd src quote e =
     (if e < length src then
        (let letter = charAt src e in
         if letter \<noteq> [BS] \<and> letter \<noteq> quote then literalEnd src quote (e + 1)
         else if letter = quote then e
         else literalEnd src quote (e + 1 + 1))
      else e)"
  by pat_completeness auto
termination
  by (relation "measure (\<lambda>(src, quote, e). length src - e)") auto

declare literalEnd.simps [simp del]

text \<open>
  Where the source logs a fatal message and leaves the process, the model returns the
  error.
\<close>

definition matchLiteral :: "string \<Rightarrow> nat \<Rightarrow> error + SourcePiece" where
  "matchLiteral src st =
     (let quote = charAt src st;
          e = literalEnd src quote (st + 1)
      in if e \<ge> length src then Inl UnterminatedLiteral
         else Inr \<lparr> start = st, content = slice src st (e + 1) \<rparr>)"

definition matchLineComment :: "string \<Rightarrow> nat \<Rightarrow> string \<Rightarrow> SourcePiece" where
  "matchLineComment src st lcSymbol =
     (let e = advanceWhile (\<lambda>k. charAt src k \<noteq> [NL]) (length src) (st + length lcSymbol)
      in \<lparr> start = st, content = slice src st e \<rparr>)"

definition matchBlockComment :: "string \<Rightarrow> nat \<Rightarrow> string \<times> string \<Rightarrow> error + SourcePiece" where
  "matchBlockComment src st bcSymbol =
     (let s = backOff src st;
          e = advanceWhile (\<lambda>k. \<not> startsWith src (snd bcSymbol) k) (length src)
                (s + length (fst bcSymbol))
      in if e \<ge> length src then Inl UnterminatedBlockComment
         else
           (let e1 = e + length (snd bcSymbol);
                e2 = advanceWhile (\<lambda>k. testHws (charAt src k)) (length src) e1;
                e3 = advanceWhile (\<lambda>k. testNewline (charAt src k)) (length src) e2
            in Inr \<lparr> start = s, content = slice src s e3 \<rparr>))"

section \<open>The partition scanner\<close>

record Regions =
  macros :: "SourcePiece list"
  sources :: "SourcePiece list"
  comments :: "SourcePiece list"
  literals :: "SourcePiece list"

text \<open>
  The loop \<open>for (let quote of quoteMark)\<close> of the scanner: every quote mark that the
  text starts with at \<open>i\<close> runs \<open>matchLiteral\<close> and pushes its region; the loop has no
  \<open>break\<close>.
\<close>

fun matchQuotes ::
  "string \<Rightarrow> nat \<Rightarrow> string list \<Rightarrow> SourcePiece option \<times> SourcePiece list
     \<Rightarrow> error + (SourcePiece option \<times> SourcePiece list)" where
  "matchQuotes src i [] acc = Inr acc"
| "matchQuotes src i (quote # quotes) (sourcePiece, lits) =
     (if startsWith src quote i then
        (case matchLiteral src i of
           Inl err \<Rightarrow> Inl err
         | Inr p \<Rightarrow> matchQuotes src i quotes (Some p, lits @ [p]))
      else matchQuotes src i quotes (sourcePiece, lits))"

text \<open>
  One round of the scanner at offset \<open>i\<close>, up to \<open>if (sourcePiece == null) continue\<close>:
  the four matchers in their order, each tried only while \<open>sourcePiece\<close> is still null.
\<close>

definition scanAt :: "string \<Rightarrow> nat \<Rightarrow> Regions \<Rightarrow> error + (SourcePiece option \<times> Regions)" where
  "scanAt src i rg =
     (let (sp1, rg1) =
            (if startsWith src (macroMark languageConfig) i
             then (let p = matchMacro src i in (Some p, rg\<lparr>macros := macros rg @ [p]\<rparr>))
             else (None, rg))
      in case (if sp1 = None then matchQuotes src i (quoteMark languageConfig) (sp1, literals rg1)
               else Inr (sp1, literals rg1)) of
           Inl err \<Rightarrow> Inl err
         | Inr (sp2, lits) \<Rightarrow>
            (let rg2 = rg1\<lparr>literals := lits\<rparr>;
                 (sp3, rg3) =
                   (if sp2 = None \<and> startsWith src (inlineCommentMark languageConfig) i
                    then (let p = matchLineComment src i (inlineCommentMark languageConfig)
                          in (Some p, rg2\<lparr>comments := comments rg2 @ [p]\<rparr>))
                    else (sp2, rg2))
             in if sp3 = None \<and> startsWith src (fst (blockCommentMark languageConfig)) i
                then (case matchBlockComment src i (blockCommentMark languageConfig) of
                        Inl err \<Rightarrow> Inl err
                      | Inr p \<Rightarrow> Inr (Some p, rg3\<lparr>comments := comments rg3 @ [p]\<rparr>))
                else Inr (sp3, rg3)))"

text \<open>
  The \<open>for\<close> loop of \<open>partition\<close> over \<open>i\<close>. After a match the plain run before the
  region is pushed, \<open>lastIndex\<close> moves behind the region, and \<open>i = lastIndex - 1\<close>
  followed by the loop's \<open>++i\<close> resumes the scan at \<open>lastIndex\<close>.
\<close>

function scanLoop :: "string \<Rightarrow> nat \<Rightarrow> nat \<Rightarrow> Regions \<Rightarrow> error + (nat \<times> Regions)" where
  "scanLoop src i lastIndex rg =
     (if i < length src then
        (case scanAt src i rg of
           Inl err \<Rightarrow> Inl err
         | Inr (None, rg') \<Rightarrow> scanLoop src (i + 1) lastIndex rg'
         | Inr (Some p, rg') \<Rightarrow>
             (let rg'' = rg'\<lparr>sources := sources rg' @
                            [\<lparr> start = lastIndex, content = slice src lastIndex (start p) \<rparr>]\<rparr>;
                  lastIndex' = start p + length (content p)
              in scanLoop src lastIndex' lastIndex' rg''))
      else Inr (lastIndex, rg))"
  by pat_completeness auto

section \<open>Bounds on the matched regions and termination of the scan\<close>

lemma charAt_eq_single [simp]: "charAt s k = [c] \<longleftrightarrow> k < length s \<and> s ! k = c"
  by (auto simp: charAt_def)

lemma charAt_in [simp]: "k < length s \<Longrightarrow> charAt s k = [s ! k]"
  by (simp add: charAt_def)

lemma charAt_out [simp]: "length s \<le> k \<Longrightarrow> charAt s k = []"
  by (simp add: charAt_def)

lemma length_slice: "length (slice s a b) = min (b - a) (length s - a)"
  by (simp add: slice_def)

lemma advanceWhile_le: "e \<le> n \<Longrightarrow> advanceWhile cond n e \<le> n"
proof (induction cond n e rule: advanceWhile.induct)
  case (1 cond n e)
  show ?case
  proof (cases "e < n \<and> cond e")
    case True
    with 1 show ?thesis by (simp add: advanceWhile_step)
  next
    case False
    with 1 show ?thesis by (simp add: advanceWhile_stop)
  qed
qed

lemma advanceWhile_end: "advanceWhile cond n e < n \<Longrightarrow> \<not> cond (advanceWhile cond n e)"
proof (induction cond n e rule: advanceWhile.induct)
  case (1 cond n e)
  show ?case
  proof (cases "e < n \<and> cond e")
    case True
    with 1 show ?thesis by (simp add: advanceWhile_step)
  next
    case False
    with 1 show ?thesis by (auto simp add: advanceWhile_stop)
  qed
qed

lemma advanceWhile_between:
  "e \<le> k \<Longrightarrow> k < advanceWhile cond n e \<Longrightarrow> cond k \<and> k < n"
proof (induction cond n e rule: advanceWhile.induct)
  case (1 cond n e)
  show ?case
  proof (cases "e < n \<and> cond e")
    case True
    show ?thesis
    proof (cases "k = e")
      case True
      with \<open>e < n \<and> cond e\<close> show ?thesis by simp
    next
      case False
      with 1 True show ?thesis by (simp add: advanceWhile_step)
    qed
  next
    case False
    with 1 show ?thesis by (simp add: advanceWhile_stop)
  qed
qed

lemma backOff_le: "backOff src i \<le> i"
  by (induction i) auto

lemma backOff_hws: "backOff src i \<le> k \<Longrightarrow> k < i \<Longrightarrow> testHws (charAt src k)"
proof (induction i)
  case 0
  then show ?case by simp
next
  case (Suc i)
  then show ?case by (cases "k = i") (auto split: if_splits)
qed

lemma backOff_stop: "0 < backOff src i \<Longrightarrow> \<not> testHws (charAt src (backOff src i - 1))"
  by (induction i) auto

lemma macroEnd_ge: "e \<le> macroEnd src e"
proof (induction src e rule: macroEnd.induct)
  case (1 src e)
  have s: "e + 1 \<le> skipSpace src (e + 1)" by (rule skipSpace_ge)
  show ?case
    apply (subst macroEnd.simps)
    using 1 s by (auto simp: Let_def)
qed

lemma literalEnd_ge: "e \<le> literalEnd src q e"
proof (induction src q e rule: literalEnd.induct)
  case (1 src q e)
  show ?case
    apply (subst literalEnd.simps)
    using 1 by (auto simp: Let_def)
qed

lemma testHws_single: "testHws t \<Longrightarrow> \<exists>c. t = [c] \<and> is_hws c"
  by (cases t rule: testHws.cases) auto

lemma macroEnd_pass:
  "e \<le> i \<Longrightarrow> \<forall>k. e \<le> k \<and> k < i \<longrightarrow> testHws (charAt src k) \<Longrightarrow> i \<le> macroEnd src e"
proof (induction src e rule: macroEnd.induct)
  case (1 src e)
  show ?case
  proof (cases "e = i")
    case True
    then show ?thesis by (simp add: macroEnd_ge)
  next
    case False
    with 1 have lt: "e < i" by simp
    with 1 have "testHws (charAt src e)" by simp
    then obtain c where c: "charAt src e = [c]" "is_hws c" by (auto dest: testHws_single)
    then have ne: "charAt src e \<noteq> [BS]" "charAt src e \<noteq> [NL]" and len: "e < length src"
      by (auto simp: is_hws_def)
    have "i \<le> macroEnd src (e + 1)"
      using 1(1)[OF len refl] ne lt 1(4) by simp
    then show ?thesis
      by (subst macroEnd.simps) (use ne len in \<open>simp add: Let_def\<close>)
  qed
qed

lemma matchMacro_progress:
  assumes "i < length src"
  shows "i < start (matchMacro src i) + length (content (matchMacro src i))"
    and "start (matchMacro src i) + length (content (matchMacro src i)) \<le> length src"
    and "start (matchMacro src i) \<le> i"
proof -
  let ?s = "backOff src i"
  let ?e = "macroEnd src (?s + 1)"
  have s: "?s \<le> i" by (rule backOff_le)
  have "i \<le> ?e"
  proof (cases "?s = i")
    case True
    then show ?thesis using macroEnd_ge[of "?s + 1" src] by simp
  next
    case False
    with s have "?s + 1 \<le> i" by simp
    moreover have "\<forall>k. ?s + 1 \<le> k \<and> k < i \<longrightarrow> testHws (charAt src k)"
      using backOff_hws[of src i] by simp
    ultimately show ?thesis by (rule macroEnd_pass)
  qed
  with s assms show "i < start (matchMacro src i) + length (content (matchMacro src i))"
    by (simp add: matchMacro_def Let_def length_slice)
  from s assms show "start (matchMacro src i) + length (content (matchMacro src i)) \<le> length src"
    by (simp add: matchMacro_def Let_def length_slice)
  from s show "start (matchMacro src i) \<le> i"
    by (simp add: matchMacro_def Let_def)
qed

lemma matchLiteral_progress:
  assumes "matchLiteral src i = Inr p"
  shows "start p = i" and "i + 2 \<le> start p + length (content p)"
    and "start p + length (content p) \<le> length src"
proof -
  define e where "e = literalEnd src (charAt src i) (i + 1)"
  from assms have e: "e < length src" and p: "p = \<lparr> start = i, content = slice src i (e + 1) \<rparr>"
    unfolding e_def by (auto simp: matchLiteral_def Let_def split: if_splits)
  have ge: "i + 1 \<le> e" unfolding e_def by (rule literalEnd_ge)
  show "start p = i" by (simp add: p)
  from e ge show "i + 2 \<le> start p + length (content p)" by (simp add: p length_slice)
  from e ge show "start p + length (content p) \<le> length src" by (simp add: p length_slice)
qed

lemma startsWith_length: "startsWith src t i \<Longrightarrow> t \<noteq> [] \<Longrightarrow> i + length t \<le> length src"
proof -
  assume a: "startsWith src t i" "t \<noteq> []"
  then have "length (take (length t) (drop i src)) = length t" by (simp add: startsWith_def)
  then have "min (length t) (length src - i) = length t" by (simp only: length_take length_drop)
  moreover from a have "0 < length t" by simp
  ultimately show ?thesis by arith
qed

lemma startsWith_nth:
  "startsWith src t i \<Longrightarrow> k < length t \<Longrightarrow> src ! (i + k) = t ! k"
proof -
  assume a: "startsWith src t i" "k < length t"
  then have t: "t \<noteq> []" by auto
  from a have "take (length t) (drop i src) ! k = t ! k" by (simp add: startsWith_def)
  moreover from startsWith_length[OF a(1) t] a(2) have "i + k < length src" by simp
  ultimately show ?thesis using a(2) by simp
qed

lemma matchLineComment_progress:
  assumes "startsWith src lc i" "lc \<noteq> []"
  shows "start (matchLineComment src i lc) = i"
    and "i + length lc \<le> start (matchLineComment src i lc) + length (content (matchLineComment src i lc))"
    and "start (matchLineComment src i lc) + length (content (matchLineComment src i lc)) \<le> length src"
proof -
  let ?e = "advanceWhile (\<lambda>k. charAt src k \<noteq> [NL]) (length src) (i + length lc)"
  have l: "i + length lc \<le> length src" using assms by (rule startsWith_length)
  have ge: "i + length lc \<le> ?e" by (rule advanceWhile_ge)
  have le: "?e \<le> length src" using l by (rule advanceWhile_le)
  show "start (matchLineComment src i lc) = i" by (simp add: matchLineComment_def Let_def)
  from ge le show "i + length lc \<le> start (matchLineComment src i lc) + length (content (matchLineComment src i lc))"
    by (simp add: matchLineComment_def Let_def length_slice)
  from ge le show "start (matchLineComment src i lc) + length (content (matchLineComment src i lc)) \<le> length src"
    by (simp add: matchLineComment_def Let_def length_slice)
qed

lemma matchBlockComment_progress:
  assumes m: "matchBlockComment src i (opn, cls) = Inr p"
    and cl: "cls \<noteq> []" "\<not> is_hws (hd cls)"
    and i: "i < length src"
  shows "start p \<le> i" and "i < start p + length (content p)"
    and "start p + length (content p) \<le> length src"
proof -
  define s where "s = backOff src i"
  define e where "e = advanceWhile (\<lambda>k. \<not> startsWith src cls k) (length src) (s + length opn)"
  define e2 where "e2 = advanceWhile (\<lambda>k. testHws (charAt src k)) (length src) (e + length cls)"
  define e3 where "e3 = advanceWhile (\<lambda>k. testNewline (charAt src k)) (length src) e2"
  from m have e: "e < length src" and p: "p = \<lparr> start = s, content = slice src s e3 \<rparr>"
    unfolding s_def e_def e2_def e3_def
    by (auto simp: matchBlockComment_def Let_def split: if_splits)
  have s: "s \<le> i" unfolding s_def by (rule backOff_le)
  have found: "startsWith src cls e"
    using advanceWhile_end[of "\<lambda>k. \<not> startsWith src cls k" "length src" "s + length opn"] e
    unfolding e_def by simp
  have ecl: "e + length cls \<le> length src" using found cl(1) by (rule startsWith_length)
  have "src ! (e + 0) = cls ! 0" using found by (rule startsWith_nth) (use cl in simp)
  with cl have nh: "\<not> is_hws (src ! e)" by (simp add: hd_conv_nth)
  have ge: "s + length opn \<le> e" unfolding e_def by (rule advanceWhile_ge)
  have ie: "i \<le> e"
  proof (cases "s = i")
    case True
    with ge show ?thesis by simp
  next
    case False
    show ?thesis
    proof (rule ccontr)
      assume "\<not> i \<le> e"
      then have lt: "e < i" by simp
      from ge have "s \<le> e" by simp
      then have "testHws (charAt src e)" using lt unfolding s_def by (rule backOff_hws)
      with e nh show False by simp
    qed
  qed
  have e2: "e + length cls \<le> e2" "e2 \<le> length src"
    unfolding e2_def using ecl by (auto intro: advanceWhile_ge advanceWhile_le)
  have e3: "e2 \<le> e3" "e3 \<le> length src"
    unfolding e3_def using e2 by (auto intro: advanceWhile_ge advanceWhile_le)
  show "start p \<le> i" using s by (simp add: p)
  from cl have "0 < length cls" by simp
  with ie e2 e3 have ie3: "i < e3" by linarith
  have "start p + length (content p) = e3"
    using ie3 e3 s by (simp add: p length_slice)
  with ie3 e3 show "i < start p + length (content p)"
    and "start p + length (content p) \<le> length src" by simp_all
qed

lemma scanAt_None: "scanAt src i rg = Inr (None, rg') \<Longrightarrow> rg' = rg"
  unfolding scanAt_def languageConfig_def
  by (auto simp: Let_def split: if_splits sum.splits prod.splits)

lemma scanAt_Some:
  assumes "scanAt src i rg = Inr (Some p, rg')"
  shows "(startsWith src ''#'' i \<and> p = matchMacro src i \<and> rg' = rg\<lparr>macros := macros rg @ [p]\<rparr>)
    \<or> (\<not> startsWith src ''#'' i \<and> (startsWith src [DQ] i \<or> startsWith src [SQ] i)
         \<and> matchLiteral src i = Inr p \<and> rg' = rg\<lparr>literals := literals rg @ [p]\<rparr>)
    \<or> (\<not> startsWith src ''#'' i \<and> \<not> startsWith src [DQ] i \<and> \<not> startsWith src [SQ] i
         \<and> startsWith src ''//'' i \<and> p = matchLineComment src i ''//''
         \<and> rg' = rg\<lparr>comments := comments rg @ [p]\<rparr>)
    \<or> (\<not> startsWith src ''#'' i \<and> \<not> startsWith src [DQ] i \<and> \<not> startsWith src [SQ] i
         \<and> \<not> startsWith src ''//'' i \<and> startsWith src ''/*'' i
         \<and> matchBlockComment src i (''/*'', ''*/'') = Inr p
         \<and> rg' = rg\<lparr>comments := comments rg @ [p]\<rparr>)"
  using assms unfolding scanAt_def languageConfig_def
  by (auto simp: Let_def startsWith_def split: if_splits sum.splits prod.splits)

lemma scanAt_progress:
  assumes "scanAt src i rg = Inr (Some p, rg')" "i < length src"
  shows "start p \<le> i \<and> i < start p + length (content p)
     \<and> start p + length (content p) \<le> length src"
  using scanAt_Some[OF assms(1)]
proof (elim disjE conjE)
  assume "p = matchMacro src i"
  then show ?thesis using matchMacro_progress[OF assms(2)] by simp
next
  assume "matchLiteral src i = Inr p"
  from matchLiteral_progress[OF this] show ?thesis by linarith
next
  assume a: "startsWith src ''//'' i" "p = matchLineComment src i ''//''"
  have "''//'' \<noteq> []" by simp
  from matchLineComment_progress[OF a(1) this] a(2) show ?thesis by auto
next
  assume "matchLiteral src i = Inr p"
  from matchLiteral_progress[OF this] show ?thesis by linarith
next
  assume a: "matchBlockComment src i (''/*'', ''*/'') = Inr p"
  have "''*/'' \<noteq> []" "\<not> is_hws (hd ''*/'')" by (simp_all add: is_hws_def)
  from matchBlockComment_progress[OF a this assms(2)] show ?thesis by simp
qed

termination scanLoop
proof (relation "measure (\<lambda>(src, i, lastIndex, rg). length src - i)", goal_cases)
  case 1
  show ?case by simp
next
  case (2 src i lastIndex rg x2 x1 rg')
  then show ?case by simp
next
  case (3 src i lastIndex rg x2 x1 rg' p rg'' lastIndex')
  then have "scanAt src i rg = Inr (Some p, rg')" by simp
  from scanAt_progress[OF this 3(1)] have "i < lastIndex'" "lastIndex' \<le> length src"
    using 3 by simp_all
  then show ?case by simp
qed

declare scanLoop.simps [simp del]

text \<open>
  For evaluation, the loop is unfolded only once the result of \<open>scanAt\<close> is known.
\<close>

definition scanNext ::
  "string \<Rightarrow> nat \<Rightarrow> nat \<Rightarrow> error + (SourcePiece option \<times> Regions) \<Rightarrow> error + (nat \<times> Regions)" where
  "scanNext src i lastIndex r =
     (case r of
        Inl err \<Rightarrow> Inl err
      | Inr (None, rg') \<Rightarrow> scanLoop src (i + 1) lastIndex rg'
      | Inr (Some p, rg') \<Rightarrow>
          scanLoop src (start p + length (content p)) (start p + length (content p))
            (rg'\<lparr>sources := sources rg' @
               [\<lparr> start = lastIndex, content = slice src lastIndex (start p) \<rparr>]\<rparr>))"

lemma scanNext_simps [simp, code]:
  "scanNext src i lastIndex (Inl err) = Inl err"
  "scanNext src i lastIndex (Inr (None, rg')) = scanLoop src (i + 1) lastIndex rg'"
  "scanNext src i lastIndex (Inr (Some p, rg')) =
     scanLoop src (start p + length (content p)) (start p + length (content p))
       (rg'\<lparr>sources := sources rg' @
          [\<lparr> start = lastIndex, content = slice src lastIndex (start p) \<rparr>]\<rparr>)"
  by (simp_all add: scanNext_def)

lemma scanLoop_unfold [code]:
  "scanLoop src i lastIndex rg =
     (if i < length src then scanNext src i lastIndex (scanAt src i rg) else Inr (lastIndex, rg))"
  by (subst scanLoop.simps)
     (simp add: scanNext_def Let_def split: sum.splits prod.splits option.splits)

section \<open>Regular expressions\<close>

text \<open>
  The three patterns of the source are sequences of literal text, single characters of a
  class and repetitions of a class (greedy \<open>*\<close> and \<open>+\<close>, lazy \<open>*?\<close>), with capture
  groups around a \<open>+\<close> repetition only. The matcher below is the backtracking matcher of
  the host language for such sequences: a repetition tries its counts in order of
  preference (a greedy one from the longest run down, a lazy one from the shortest up), and
  the first count for which the rest of the pattern matches wins.
\<close>

datatype rx =
    Lit string
  | One "char \<Rightarrow> bool"
  | Star "char \<Rightarrow> bool"
  | Plus "char \<Rightarrow> bool"
  | LazyStar "char \<Rightarrow> bool"
  | GroupPlus "char \<Rightarrow> bool"

fun tryCounts :: "(nat \<Rightarrow> 'a option) \<Rightarrow> nat list \<Rightarrow> 'a option" where
  "tryCounts f [] = None"
| "tryCounts f (n # ns) = (case f n of Some r \<Rightarrow> Some r | None \<Rightarrow> tryCounts f ns)"

text \<open>
  \<open>rx_run rs s caps\<close> matches the pattern \<open>rs\<close> at the head of \<open>s\<close>; the result is the
  captures (after \<open>caps\<close>) and the text left after the match.
\<close>

fun rx_run :: "rx list \<Rightarrow> string \<Rightarrow> string list \<Rightarrow> (string list \<times> string) option" where
  "rx_run [] s caps = Some (caps, s)"
| "rx_run (Lit t # rs) s caps =
     (if take (length t) s = t then rx_run rs (drop (length t) s) caps else None)"
| "rx_run (One cls # rs) s caps =
     (case s of [] \<Rightarrow> None | c # s' \<Rightarrow> if cls c then rx_run rs s' caps else None)"
| "rx_run (Star cls # rs) s caps =
     tryCounts (\<lambda>n. rx_run rs (drop n s) caps) (rev [0 ..< Suc (length (takeWhile cls s))])"
| "rx_run (Plus cls # rs) s caps =
     tryCounts (\<lambda>n. rx_run rs (drop n s) caps) (rev [1 ..< Suc (length (takeWhile cls s))])"
| "rx_run (LazyStar cls # rs) s caps =
     tryCounts (\<lambda>n. rx_run rs (drop n s) caps) [0 ..< Suc (length (takeWhile cls s))]"
| "rx_run (GroupPlus cls # rs) s caps =
     tryCounts (\<lambda>n. rx_run rs (drop n s) (caps @ [take n s]))
       (rev [1 ..< Suc (length (takeWhile cls s))])"

text \<open>
  \<open>String.prototype.replace\<close> with a global pattern and a callback that returns the empty
  string: the text with every match removed, and the captures of the matches in order.
  The search for the next match starts where the last one ended; a match of length zero
  moves the search on by one character.
\<close>

function replaceAll :: "rx list \<Rightarrow> string \<Rightarrow> string \<times> string list list" where
  "replaceAll rs s =
     (case rx_run rs s [] of
        Some (caps, rest) \<Rightarrow>
          (if length rest < length s then
             (let (out, found) = replaceAll rs rest in (out, caps # found))
           else
             (case s of
                [] \<Rightarrow> ([], [caps])
              | c # s' \<Rightarrow> (let (out, found) = replaceAll rs s' in (c # out, caps # found))))
      | None \<Rightarrow>
          (case s of
             [] \<Rightarrow> ([], [])
           | c # s' \<Rightarrow> (let (out, found) = replaceAll rs s' in (c # out, found))))"
  by pat_completeness auto
termination
  by (relation "measure (\<lambda>(rs, s). length s)") auto

declare replaceAll.simps [simp del]

text \<open>The character classes \<open>[<"]\<close>, \<open>[>"]\<close>, \<open>[\w\-_.:\/\\]\<close> and \<open>[\w* <>]\<close>.\<close>

definition is_open :: "char \<Rightarrow> bool" where
  "is_open c = (c = CHR ''<'' \<or> c = DQ)"

definition is_close :: "char \<Rightarrow> bool" where
  "is_close c = (c = CHR ''>'' \<or> c = DQ)"

definition is_path :: "char \<Rightarrow> bool" where
  "is_path c = (is_word c \<or> c = CHR ''-'' \<or> c = CHR ''_'' \<or> c = CHR ''.'' \<or> c = CHR '':''
     \<or> c = CHR ''/'' \<or> c = BS)"

definition is_type :: "char \<Rightarrow> bool" where
  "is_type c = (is_word c \<or> c = CHR ''*'' \<or> c = CHR '' '' \<or> c = CHR ''<'' \<or> c = CHR ''>'')"

text \<open>\<open>/#include\s*[<"]([\w\-_.:\/\\]+)[>"]\s*?\n/\<close>\<close>

definition getImportRegex :: "rx list" where
  "getImportRegex = [Lit ''#include'', Star is_space, One is_open, GroupPlus is_path,
     One is_close, LazyStar is_space, Lit [NL]]"

text \<open>\<open>/using\s+namespace\s+(\w+)\s*;\s*/\<close>\<close>

definition getNamespaceRegex :: "rx list" where
  "getNamespaceRegex = [Lit ''using'', Plus is_space, Lit ''namespace'', Plus is_space,
     GroupPlus is_word, Star is_space, Lit '';'', Star is_space]"

text \<open>\<open>/typedef\s+([\w* <>]+)\s+(\w+)\s*;\s*/\<close>\<close>

definition getTypedefRegex :: "rx list" where
  "getTypedefRegex = [Lit ''typedef'', Plus is_space, GroupPlus is_type, Plus is_space,
     GroupPlus is_word, Star is_space, Lit '';'', Star is_space]"

section \<open>Extraction and assembly\<close>

record SourceItem = Regions +
  dependencies :: "string list"
  namespaces :: "string list"
  typedefs :: "(string \<times> string) list"

text \<open>
  The \<open>forEach\<close> passes: every region's content is replaced by its stripped content, and
  the callback's writes are threaded through as \<open>acc\<close>. \<open>group caps k\<close> is the callback's
  parameter for the capture group \<open>k\<close>.
\<close>

definition group :: "string list \<Rightarrow> nat \<Rightarrow> string" where
  "group caps k = (if k < length caps then caps ! k else [])"

fun stripPieces ::
  "rx list \<Rightarrow> ('a \<Rightarrow> string list \<Rightarrow> 'a) \<Rightarrow> SourcePiece list \<Rightarrow> 'a \<Rightarrow> SourcePiece list \<times> 'a" where
  "stripPieces rs callback [] acc = ([], acc)"
| "stripPieces rs callback (piece # pieces) acc =
     (let r = replaceAll rs (content piece);
          t = stripPieces rs callback pieces (foldl callback acc (snd r))
      in (piece\<lparr>content := fst r\<rparr> # fst t, snd t))"

text \<open>\<open>[...new Set(xs)]\<close>: the elements of \<open>xs\<close> in the order of their first occurrence.\<close>

definition newSet :: "string list \<Rightarrow> string list" where
  "newSet xs = rev (remdups (rev xs))"

definition filterNotEmptyPiece :: "SourcePiece \<Rightarrow> bool" where
  "filterNotEmptyPiece sourcePiece = (length (content sourcePiece) > 0)"

text \<open>
  The scan of the whole text: the loop from offset 0 and the last plain run. This is
  the state of \<open>partition\<close> before the extraction passes.
\<close>

definition scanRegions :: "string \<Rightarrow> error + Regions" where
  "scanRegions src =
     (case scanLoop src 0 0 \<lparr> macros = [], sources = [], comments = [], literals = [] \<rparr> of
        Inl err \<Rightarrow> Inl err
      | Inr (lastIndex, rg) \<Rightarrow>
          Inr (rg\<lparr>sources := sources rg @
                 [\<lparr> start = lastIndex, content = sliceFrom src lastIndex \<rparr>]\<rparr>))"

definition assemble :: "Regions \<Rightarrow> SourceItem" where
  "assemble rg =
     (let (macros', deps) =
            stripPieces getImportRegex (\<lambda>acc caps. acc @ [group caps 0]) (macros rg) [];
          (sources1, nss) =
            stripPieces getNamespaceRegex (\<lambda>acc caps. acc @ [group caps 0]) (sources rg) [];
          (sources2, tds) =
            stripPieces getTypedefRegex (\<lambda>acc caps. AList.update (group caps 1) (group caps 0) acc)
              sources1 []
      in \<lparr> macros = macros',
           sources = filter filterNotEmptyPiece sources2,
           comments = filter filterNotEmptyPiece (comments rg),
           literals = filter filterNotEmptyPiece (literals rg),
           dependencies = filter (\<lambda>d. length d > 0) (newSet deps),
           namespaces = filter (\<lambda>ns. length ns > 0) nss,
           typedefs = tds \<rparr>)"

definition partition :: "string \<Rightarrow> error + SourceItem" where
  "partition src = (case scanRegions src of Inl err \<Rightarrow> Inl err | Inr rg \<Rightarrow> Inr (assemble rg))"

section \<open>Notions used in the statements\<close>

text \<open>
  All regions of a scan, sorted by their start offset and laid end to end; and whether
  two regions share an offset of the text.
\<close>

definition layout :: "Regions \<Rightarrow> string" where
  "layout rg =
     concat (map content (sort_key start (macros rg @ literals rg @ comments rg @ sources rg)))"

definition overlap :: "SourcePiece \<Rightarrow> SourcePiece \<Rightarrow> bool" where
  "overlap p q = (start p < start q + length (content q) \<and> start q < start p + length (content p))"

text \<open>
  A literal body in which no quote ends the literal: a backslash takes the character after
  it along, every other character is neither the quote nor a lone backslash at the end.
\<close>

fun escapedBody :: "char \<Rightarrow> string \<Rightarrow> bool" where
  "escapedBody q [] = True"
| "escapedBody q [c] = (c \<noteq> BS \<and> c \<noteq> q)"
| "escapedBody q (c # d # cs) =
     (if c = BS then escapedBody q cs else c \<noteq> q \<and> escapedBody q (d # cs))"

text \<open>
  A position \<open>p\<close> is continued when it lies in the run of white space that directly
  follows a backslash at or after \<open>lo\<close>.
\<close>

definition continued :: "string \<Rightarrow> nat \<Rightarrow> nat \<Rightarrow> bool" where
  "continued src lo p =
     (\<exists>q \<in> {lo ..< p}. charAt src q = [BS] \<and> (\<forall>k \<in> {q <.. p}. testSpace (charAt src k)))"

text \<open>
  The same loop with a bound on the number of rounds: \<open>None\<close> when the rounds run out
  before the loop has left.
\<close>

fun scanFuel ::
  "nat \<Rightarrow> string \<Rightarrow> nat \<Rightarrow> nat \<Rightarrow> Regions \<Rightarrow> (error + (nat \<times> Regions)) option" where
  "scanFuel 0 src i lastIndex rg = None"
| "scanFuel (Suc n) src i lastIndex rg =
     (if i < length src then
        (case scanAt src i rg of
           Inl err \<Rightarrow> Some (Inl err)
         | Inr (None, rg') \<Rightarrow> scanFuel n src (i + 1) lastIndex rg'
         | Inr (Some p, rg') \<Rightarrow>
             (let rg'' = rg'\<lparr>sources := sources rg' @
                            [\<lparr> start = lastIndex, content = slice src lastIndex (start p) \<rparr>]\<rparr>;
                  lastIndex' = start p + length (content p)
              in scanFuel n src lastIndex' lastIndex' rg''))
      else Some (Inr (lastIndex, rg)))"

text \<open>Every macro region of a scan is the result of \<open>matchMacro\<close> at an offset of the text.\<close>

definition macrosMatched :: "string \<Rightarrow> Regions \<Rightarrow> bool" where
  "macrosMatched src rg = (\<forall>m\<in>set (macros rg). \<exists>j<length src. m = matchMacro src j)"





section \<open>Evaluation on failing inputs\<close>

text \<open>
  C1: the regions of a scan do not always reconstruct the text. On a block comment, a
  space and a macro mark, the comment takes the space as its trailing white space and the
  macro takes the same space as its leading white space: the two regions overlap at
  offset 4, the plain run between them is empty, and the layout has one character more
  than the text.
\<close>

theorem C1_overlap_after_block_comment:
  "scanRegions ''/**/ #'' =
     Inr \<lparr> macros = [\<lparr> start = 4, content = '' #'' \<rparr>],
           sources = [\<lparr> start = 0, content = [] \<rparr>, \<lparr> start = 5, content = [] \<rparr>,
                      \<lparr> start = 6, content = [] \<rparr>],
           comments = [\<lparr> start = 0, content = ''/**/ '' \<rparr>],
           literals = [] \<rparr>
   \<and> layout \<lparr> macros = [\<lparr> start = 4, content = '' #'' \<rparr>],
           sources = [\<lparr> start = 0, content = [] \<rparr>, \<lparr> start = 5, content = [] \<rparr>,
                      \<lparr> start = 6, content = [] \<rparr>],
           comments = [\<lparr> start = 0, content = ''/**/ '' \<rparr>],
           literals = [] \<rparr> = ''/**/  #''
   \<and> overlap \<lparr> start = 0, content = ''/**/ '' \<rparr> \<lparr> start = 4, content = '' #'' \<rparr>"
  by code_simp

text \<open>
  C2: whether an unclosed block comment is reported depends on the white space before
  it. The text \<open>/*/\<close> alone is an unterminated block comment; after one space the search
  for the closing token starts inside the opening token, takes its \<open>*\<close> together with
  the following \<open>/\<close> for the closing token, and no error is reported.
\<close>

theorem C2_unclosed_comment_after_space:
  "partition ''/*/'' = Inl UnterminatedBlockComment
   \<and> partition '' /*/'' =
       Inr \<lparr> macros = [], sources = [], comments = [\<lparr> start = 0, content = '' /*/'' \<rparr>],
             literals = [], dependencies = [], namespaces = [], typedefs = [] \<rparr>"
  by code_simp

text \<open>
  C3: the namespace list keeps duplicates: the same \<open>using namespace\<close> declaration twice
  gives the name twice, while the same include directive twice gives one dependency.
\<close>

theorem C3_namespaces_keep_duplicates:
  "partition ''using namespace std;\<newline>using namespace std;\<newline>'' =
     Inr \<lparr> macros = [], sources = [], comments = [], literals = [],
           dependencies = [], namespaces = [''std'', ''std''], typedefs = [] \<rparr>
   \<and> partition ''#include <a.h>\<newline>#include <a.h>\<newline>'' =
     Inr \<lparr> macros = [\<lparr> start = 0, content = [] \<rparr>, \<lparr> start = 15, content = [] \<rparr>],
           sources = [], comments = [], literals = [],
           dependencies = [''a.h''], namespaces = [], typedefs = [] \<rparr>"
  by code_simp

text \<open>
  C4: the macro list is returned unfiltered: a macro region that consists of an include
  directive is left in the result with empty content.
\<close>

theorem C4_macros_keep_empty_region:
  "partition ''#include <a.h>\<newline>'' =
     Inr \<lparr> macros = [\<lparr> start = 0, content = [] \<rparr>], sources = [], comments = [],
           literals = [], dependencies = [''a.h''], namespaces = [], typedefs = [] \<rparr>"
  by code_simp

section \<open>The literal matcher and escapes\<close>

lemma literalEnd_body:
  "escapedBody q body \<Longrightarrow> q \<noteq> BS \<Longrightarrow>
   literalEnd (pre @ body @ q # rest) [q] (length pre) = length pre + length body"
proof (induction q body arbitrary: pre rule: escapedBody.induct)
  case (1 q)
  then show ?case by (subst literalEnd.simps) (simp add: charAt_def)
next
  case (2 q c)
  have "literalEnd ((pre @ [c]) @ [] @ q # rest) [q] (length (pre @ [c])) = length (pre @ [c]) + length ([]::string)"
    using 2 by (subst literalEnd.simps) (simp add: charAt_def nth_append)
  then have "literalEnd (pre @ c # q # rest) [q] (Suc (length pre)) = Suc (length pre)" by simp
  with 2 show ?case by (subst literalEnd.simps) (simp add: charAt_def nth_append)
next
  case (3 q c d cs)
  show ?case
  proof (cases "c = BS")
    case True
    with 3 have "escapedBody q cs" by simp
    from 3(1)[OF True this 3(4), of "pre @ [c, d]"]
    have "literalEnd (pre @ c # d # cs @ q # rest) [q] (Suc (Suc (length pre))) = Suc (Suc (length pre + length cs))"
      by simp
    with True 3(4) show ?thesis by (subst literalEnd.simps) (simp add: charAt_def nth_append)
  next
    case False
    with 3 have b: "c \<noteq> q" "escapedBody q (d # cs)" by simp_all
    from 3(2)[OF False b(2) 3(4), of "pre @ [c]"]
    have "literalEnd (pre @ c # d # cs @ q # rest) [q] (Suc (length pre)) = Suc (Suc (length pre + length cs))"
      by simp
    with False b show ?thesis by (subst literalEnd.simps) (simp add: charAt_def nth_append)
  qed
qed

text \<open>
  C8: in the literal matcher a backslash escapes the character after it, so an escaped quote
  does not end the literal: whatever stands before and after, a literal whose body has
  only escaped quotes is matched up to the first unescaped quote and returned in full. For
  the six characters quote, a, backslash, quote, b, quote the region is all six; the first
  four of them alone are an unterminated literal.
\<close>

theorem C8_escaped_quote_does_not_close:
  "(q \<noteq> BS \<longrightarrow> escapedBody q body \<longrightarrow>
      matchLiteral (pre @ [q] @ body @ [q] @ rest) (length pre)
        = Inr \<lparr> start = length pre, content = [q] @ body @ [q] \<rparr>)
   \<and> matchLiteral [DQ, CHR ''a'', BS, DQ, CHR ''b'', DQ] 0
        = Inr \<lparr> start = 0, content = [DQ, CHR ''a'', BS, DQ, CHR ''b'', DQ] \<rparr>
   \<and> length [DQ, CHR ''a'', BS, DQ, CHR ''b'', DQ] = 6
   \<and> matchLiteral [DQ, CHR ''a'', BS, DQ] 0 = Inl UnterminatedLiteral"
proof (intro conjI impI)
  assume q: "q \<noteq> BS" and b: "escapedBody q body"
  let ?src = "pre @ [q] @ body @ [q] @ rest"
  have "literalEnd ((pre @ [q]) @ body @ q # rest) [q] (length (pre @ [q]))
          = length (pre @ [q]) + length body"
    using b q by (rule literalEnd_body)
  then have e: "literalEnd ?src [q] (length pre + 1) = length pre + 1 + length body" by simp
  have c: "charAt ?src (length pre) = [q]" by (simp add: charAt_def nth_append)
  have "slice ?src (length pre) (length pre + 1 + length body + 1) = [q] @ body @ [q]"
    by (simp add: slice_def)
  with e c show "matchLiteral ?src (length pre) = Inr \<lparr> start = length pre, content = [q] @ body @ [q] \<rparr>"
    by (simp add: matchLiteral_def Let_def)
next
  show "matchLiteral [DQ, CHR ''a'', BS, DQ, CHR ''b'', DQ] 0
        = Inr \<lparr> start = 0, content = [DQ, CHR ''a'', BS, DQ, CHR ''b'', DQ] \<rparr>"
    by code_simp
next
  show "length [DQ, CHR ''a'', BS, DQ, CHR ''b'', DQ] = 6" by simp
next
  show "matchLiteral [DQ, CHR ''a'', BS, DQ] 0 = Inl UnterminatedLiteral" by code_simp
qed

theorem C8_witness:
  "DQ \<noteq> BS \<and> escapedBody DQ [CHR ''a'', BS, DQ, CHR ''b'']
   \<and> matchLiteral (''x = '' @ [DQ] @ [CHR ''a'', BS, DQ, CHR ''b''] @ [DQ] @ '';'') (length ''x = '')
       = Inr \<lparr> start = length ''x = '', content = [DQ] @ [CHR ''a'', BS, DQ, CHR ''b''] @ [DQ] \<rparr>"
  using C8_escaped_quote_does_not_close[of DQ "[CHR ''a'', BS, DQ, CHR ''b'']" "''x = ''" "'';''"]
  by simp

section \<open>Progress and termination of the scan\<close>

lemma scanFuel_enough:
  "length src - i < n \<Longrightarrow> scanFuel n src i lastIndex rg = Some (scanLoop src i lastIndex rg)"
proof (induction n arbitrary: i lastIndex rg)
  case 0
  then show ?case by simp
next
  case (Suc n)
  show ?case
  proof (cases "i < length src")
    case False
    then show ?thesis by (simp add: scanLoop_unfold)
  next
    case True
    show ?thesis
    proof (cases "scanAt src i rg")
      case (Inl err)
      with True show ?thesis by (simp add: scanLoop_unfold)
    next
      case (Inr r)
      obtain sp rg' where r: "r = (sp, rg')" by (cases r)
      show ?thesis
      proof (cases sp)
        case None
        from True Suc.prems have "length src - (i + 1) < n" by simp
        from Suc.IH[OF this] True Inr r None show ?thesis by (simp add: scanLoop_unfold)
      next
        case (Some p)
        with Inr r have "scanAt src i rg = Inr (Some p, rg')" by simp
        from scanAt_progress[OF this True] Suc.prems True
        have "length src - (start p + length (content p)) < n" by linarith
        from Suc.IH[OF this] True Inr r Some show ?thesis by (simp add: scanLoop_unfold Let_def)
      qed
    qed
  qed
qed

text \<open>
  C10: the scan terminates. Whenever a matcher returns a region at a cursor \<open>i\<close> inside
  the text, with \<open>lastIndex\<close> not behind the cursor, the new \<open>lastIndex\<close> (the start of
  the region plus the length of its content) is greater than the old one and than the
  cursor, and not beyond the end of the text; so the loop, which resumes at the new
  \<open>lastIndex\<close>, leaves after at most as many rounds as characters remain, plus one.
\<close>

theorem C10_scan_makes_progress:
  "(i < length src \<longrightarrow> lastIndex \<le> i \<longrightarrow> scanAt src i rg = Inr (Some p, rg') \<longrightarrow>
      lastIndex < start p + length (content p) \<and> i < start p + length (content p)
      \<and> start p + length (content p) \<le> length src)
   \<and> scanFuel (Suc (length src - i)) src i lastIndex rg = Some (scanLoop src i lastIndex rg)"
proof (intro conjI impI)
  assume a: "i < length src" "lastIndex \<le> i" "scanAt src i rg = Inr (Some p, rg')"
  from scanAt_progress[OF a(3) a(1)] a(2)
  show "lastIndex < start p + length (content p)" "i < start p + length (content p)"
    "start p + length (content p) \<le> length src" by simp_all
next
  show "scanFuel (Suc (length src - i)) src i lastIndex rg = Some (scanLoop src i lastIndex rg)"
    by (rule scanFuel_enough) simp
qed

theorem C10_witness:
  "(2::nat) < length ''a #b'' \<and> (0::nat) \<le> 2
   \<and> scanAt ''a #b'' 2 \<lparr> macros = [], sources = [], comments = [], literals = [] \<rparr>
       = Inr (Some \<lparr> start = 1, content = '' #b'' \<rparr>,
              \<lparr> macros = [\<lparr> start = 1, content = '' #b'' \<rparr>], sources = [], comments = [],
                literals = [] \<rparr>)
   \<and> (0::nat) < start \<lparr> start = 1, content = '' #b'' \<rparr> + length (content \<lparr> start = 1, content = '' #b'' \<rparr>)
   \<and> scanFuel (Suc (length ''a #b'' - 2)) ''a #b'' 2 0
        \<lparr> macros = [], sources = [], comments = [], literals = [] \<rparr>
       = Some (Inr (4, \<lparr> macros = [\<lparr> start = 1, content = '' #b'' \<rparr>],
                        sources = [\<lparr> start = 0, content = ''a'' \<rparr>], comments = [],
                        literals = [] \<rparr>))"
proof -
  have s: "scanAt ''a #b'' 2 \<lparr> macros = [], sources = [], comments = [], literals = [] \<rparr>
       = Inr (Some \<lparr> start = 1, content = '' #b'' \<rparr>,
              \<lparr> macros = [\<lparr> start = 1, content = '' #b'' \<rparr>], sources = [], comments = [],
                literals = [] \<rparr>)"
    by code_simp
  have l: "scanLoop ''a #b'' 2 0 \<lparr> macros = [], sources = [], comments = [], literals = [] \<rparr>
       = Inr (4, \<lparr> macros = [\<lparr> start = 1, content = '' #b'' \<rparr>],
                        sources = [\<lparr> start = 0, content = ''a'' \<rparr>], comments = [],
                        literals = [] \<rparr>)"
    by code_simp
  show ?thesis
    using C10_scan_makes_progress[of 2 "''a #b''" 0
        "\<lparr> macros = [], sources = [], comments = [], literals = [] \<rparr>"
        "\<lparr> start = 1, content = '' #b'' \<rparr>"
        "\<lparr> macros = [\<lparr> start = 1, content = '' #b'' \<rparr>], sources = [], comments = [],
                literals = [] \<rparr>"] s l
    by simp
qed

section \<open>The block comment matcher\<close>

lemma startsWith_bound: "startsWith src t i \<Longrightarrow> i \<le> length src \<Longrightarrow> i + length t \<le> length src"
proof -
  assume a: "startsWith src t i" "i \<le> length src"
  then have "length (take (length t) (drop i src)) = length t" by (simp add: startsWith_def)
  then have "min (length t) (length src - i) = length t" by (simp only: length_take length_drop)
  with a(2) show ?thesis by arith
qed

lemma advanceWhile_halt:
  "e \<le> n \<Longrightarrow> advanceWhile cond n e = n \<or> \<not> cond (advanceWhile cond n e)"
  using advanceWhile_end[of cond n e] advanceWhile_le[of e n cond] by auto

text \<open>
  The region that \<open>matchBlockComment\<close> returns: the start moved left over all tabs and
  spaces, the first closing token at or after the moved start plus the length of the
  opening token, and behind it the tabs and spaces and then the newlines that follow.
\<close>

lemma matchBlockComment_shape:
  assumes m: "matchBlockComment src i (opn, cls) = Inr r"
  shows "start r \<le> i"
    and "\<forall>k. start r \<le> k \<and> k < i \<longrightarrow> testHws (charAt src k)"
    and "start r = 0 \<or> \<not> testHws (charAt src (start r - 1))"
    and "content r = slice src (start r) (start r + length (content r))"
    and "start r + length (content r) \<le> length src"
    and "\<exists>e h. startsWith src cls e \<and> start r + length opn \<le> e \<and> e < length src
           \<and> (\<forall>k. start r + length opn \<le> k \<and> k < e \<longrightarrow> \<not> startsWith src cls k)
           \<and> e + length cls \<le> h \<and> h \<le> start r + length (content r)
           \<and> (\<forall>k. e + length cls \<le> k \<and> k < h \<longrightarrow> testHws (charAt src k))
           \<and> \<not> testHws (charAt src h)
           \<and> (\<forall>k. h \<le> k \<and> k < start r + length (content r) \<longrightarrow> testNewline (charAt src k))
           \<and> \<not> testNewline (charAt src (start r + length (content r)))"
proof -
  define s where "s = backOff src i"
  define e where "e = advanceWhile (\<lambda>k. \<not> startsWith src cls k) (length src) (s + length opn)"
  define h where "h = advanceWhile (\<lambda>k. testHws (charAt src k)) (length src) (e + length cls)"
  define t where "t = advanceWhile (\<lambda>k. testNewline (charAt src k)) (length src) h"
  from m have e: "e < length src" and r: "r = \<lparr> start = s, content = slice src s t \<rparr>"
    unfolding s_def e_def h_def t_def
    by (auto simp: matchBlockComment_def Let_def split: if_splits)
  have s: "s \<le> i" unfolding s_def by (rule backOff_le)
  have ge: "s + length opn \<le> e" unfolding e_def by (rule advanceWhile_ge)
  have found: "startsWith src cls e"
    using advanceWhile_end[of "\<lambda>k. \<not> startsWith src cls k" "length src" "s + length opn"] e
    unfolding e_def by simp
  have first: "\<forall>k. s + length opn \<le> k \<and> k < e \<longrightarrow> \<not> startsWith src cls k"
    using advanceWhile_between[of "s + length opn" _ "\<lambda>k. \<not> startsWith src cls k" "length src"]
    unfolding e_def by blast
  have ecl: "e + length cls \<le> length src" using found e by (simp add: startsWith_bound)
  have h: "e + length cls \<le> h" "h \<le> length src"
    unfolding h_def using ecl by (auto intro: advanceWhile_ge advanceWhile_le)
  have t: "h \<le> t" "t \<le> length src"
    unfolding t_def using h by (auto intro: advanceWhile_ge advanceWhile_le)
  have hws: "\<forall>k. e + length cls \<le> k \<and> k < h \<longrightarrow> testHws (charAt src k)"
    using advanceWhile_between[of "e + length cls" _ "\<lambda>k. testHws (charAt src k)" "length src"]
    unfolding h_def by blast
  have "h = length src \<or> \<not> testHws (charAt src h)"
    using advanceWhile_halt[OF ecl, of "\<lambda>k. testHws (charAt src k)"]
    unfolding h_def by simp
  then have hstop: "\<not> testHws (charAt src h)" by auto
  have nls: "\<forall>k. h \<le> k \<and> k < t \<longrightarrow> testNewline (charAt src k)"
    using advanceWhile_between[of h _ "\<lambda>k. testNewline (charAt src k)" "length src"]
    unfolding t_def by blast
  have "t = length src \<or> \<not> testNewline (charAt src t)"
    using advanceWhile_halt[OF h(2), of "\<lambda>k. testNewline (charAt src k)"]
    unfolding t_def by simp
  then have tstop: "\<not> testNewline (charAt src t)" by auto
  have st: "s \<le> t" using ge h t by linarith
  then have len: "start r + length (content r) = t" using t by (simp add: r length_slice)
  show "start r \<le> i" using s by (simp add: r)
  show "\<forall>k. start r \<le> k \<and> k < i \<longrightarrow> testHws (charAt src k)"
    using backOff_hws[of src i] by (simp add: r s_def)
  show "start r = 0 \<or> \<not> testHws (charAt src (start r - 1))"
    using backOff_stop[of src i] by (auto simp: r s_def)
  show "content r = slice src (start r) (start r + length (content r))"
    unfolding len by (simp add: r)
  show "start r + length (content r) \<le> length src" unfolding len by (rule t)
  show "\<exists>e h. startsWith src cls e \<and> start r + length opn \<le> e \<and> e < length src
           \<and> (\<forall>k. start r + length opn \<le> k \<and> k < e \<longrightarrow> \<not> startsWith src cls k)
           \<and> e + length cls \<le> h \<and> h \<le> start r + length (content r)
           \<and> (\<forall>k. e + length cls \<le> k \<and> k < h \<longrightarrow> testHws (charAt src k))
           \<and> \<not> testHws (charAt src h)
           \<and> (\<forall>k. h \<le> k \<and> k < start r + length (content r) \<longrightarrow> testNewline (charAt src k))
           \<and> \<not> testNewline (charAt src (start r + length (content r)))"
    unfolding len
    apply (rule exI[of _ e], rule exI[of _ h])
    using found ge e first h t hws hstop nls tstop by (simp add: r)
qed

text \<open>
  Where the search does not start inside the opening token (no closing token begins
  between the backed-off start plus the length of the opening token and the end of the
  opening token), the closing token of the region is the first one behind the opening
  token.
\<close>

lemma matchBlockComment_closing:
  assumes m: "matchBlockComment src i (opn, cls) = Inr r"
    and n: "\<forall>k. start r + length opn \<le> k \<and> k < i + length opn \<longrightarrow> \<not> startsWith src cls k"
  shows "\<exists>e h. startsWith src cls e \<and> i + length opn \<le> e \<and> e < length src
           \<and> (\<forall>k. i + length opn \<le> k \<and> k < e \<longrightarrow> \<not> startsWith src cls k)
           \<and> e + length cls \<le> h \<and> h \<le> start r + length (content r)
           \<and> (\<forall>k. e + length cls \<le> k \<and> k < h \<longrightarrow> testHws (charAt src k))
           \<and> \<not> testHws (charAt src h)
           \<and> (\<forall>k. h \<le> k \<and> k < start r + length (content r) \<longrightarrow> testNewline (charAt src k))
           \<and> \<not> testNewline (charAt src (start r + length (content r)))"
proof -
  from matchBlockComment_shape(1,6)[OF m] obtain e h where
    s: "start r \<le> i" and e: "startsWith src cls e" "start r + length opn \<le> e" "e < length src"
    and f: "\<forall>k. start r + length opn \<le> k \<and> k < e \<longrightarrow> \<not> startsWith src cls k"
    and h: "e + length cls \<le> h" "h \<le> start r + length (content r)"
      "\<forall>k. e + length cls \<le> k \<and> k < h \<longrightarrow> testHws (charAt src k)"
      "\<not> testHws (charAt src h)"
      "\<forall>k. h \<le> k \<and> k < start r + length (content r) \<longrightarrow> testNewline (charAt src k)"
      "\<not> testNewline (charAt src (start r + length (content r)))"
    by blast
  have ie: "i + length opn \<le> e"
  proof (rule ccontr)
    assume "\<not> i + length opn \<le> e"
    with e(2) n have "\<not> startsWith src cls e" by simp
    with e(1) show False by simp
  qed
  have "\<forall>k. i + length opn \<le> k \<and> k < e \<longrightarrow> \<not> startsWith src cls k"
    using f s by simp
  with e(1,3) ie h show ?thesis by blast
qed

text \<open>
  C7: the block comment matcher does not always take the white space behind the closing
  token. In the text of a space, \<open>/*/ x */\<close>, a space, a newline and \<open>y\<close> the comment
  opens at offset 1 and its closing token stands at offset 6. The start of the region
  moves left over the space, the search for the closing token starts inside the opening
  token, and the region returned is the first five characters: it ends inside the comment,
  and the space and the newline behind the closing token stay in the plain run. Without
  the leading space the region is the whole comment with the space and the newline behind
  it, and so it is for the text of two spaces, \<open>/* hi */\<close>, two spaces, a newline and
  \<open>code\<close>.
\<close>

theorem C7_comment_cut_short_after_space:
  "matchBlockComment '' /*/ x */ \<newline>y'' 1 (''/*'', ''*/'')
     = Inr \<lparr> start = 0, content = '' /*/ '' \<rparr>
   \<and> partition '' /*/ x */ \<newline>y''
     = Inr \<lparr> macros = [], sources = [\<lparr> start = 5, content = ''x */ \<newline>y'' \<rparr>],
             comments = [\<lparr> start = 0, content = '' /*/ '' \<rparr>], literals = [],
             dependencies = [], namespaces = [], typedefs = [] \<rparr>
   \<and> matchBlockComment ''/*/ x */ \<newline>y'' 0 (''/*'', ''*/'')
     = Inr \<lparr> start = 0, content = ''/*/ x */ \<newline>'' \<rparr>
   \<and> partition ''/*/ x */ \<newline>y''
     = Inr \<lparr> macros = [], sources = [\<lparr> start = 10, content = ''y'' \<rparr>],
             comments = [\<lparr> start = 0, content = ''/*/ x */ \<newline>'' \<rparr>], literals = [],
             dependencies = [], namespaces = [], typedefs = [] \<rparr>
   \<and> partition ''  /* hi */  \<newline>code''
     = Inr \<lparr> macros = [], sources = [\<lparr> start = 13, content = ''code'' \<rparr>],
             comments = [\<lparr> start = 0, content = ''  /* hi */  \<newline>'' \<rparr>], literals = [],
             dependencies = [], namespaces = [], typedefs = [] \<rparr>"
  by code_simp

section \<open>The macro matcher and line continuation\<close>

lemma continued_iff:
  "continued src lo p \<longleftrightarrow>
     (\<exists>q. lo \<le> q \<and> q < p \<and> charAt src q = [BS] \<and> (\<forall>k. q < k \<and> k \<le> p \<longrightarrow> testSpace (charAt src k)))"
  by (auto simp: continued_def)

lemma skipSpace_between: "e \<le> k \<Longrightarrow> k < skipSpace src e \<Longrightarrow> testSpace (charAt src k)"
  unfolding skipSpace_def
  using advanceWhile_between[of e k "\<lambda>k. testSpace (charAt src k)" "length src"] by blast

lemma skipSpace_stop: "\<not> testSpace (charAt src (skipSpace src e))"
proof (cases "skipSpace src e < length src")
  case True
  then show ?thesis
    unfolding skipSpace_def
    using advanceWhile_end[of "\<lambda>k. testSpace (charAt src k)" "length src" e] by simp
next
  case False
  then show ?thesis by simp
qed

lemma testSpace_not_special: "testSpace t \<Longrightarrow> t \<noteq> [BS]"
  by (cases t rule: testSpace.cases) (auto simp: is_space_def)

lemma macroEnd_result:
  assumes "lo \<le> e" "\<not> continued src lo e"
    and "\<forall>p. lo \<le> p \<and> p < e \<and> charAt src p = [NL] \<longrightarrow> continued src lo p"
  shows "(\<forall>p. lo \<le> p \<and> p < macroEnd src e \<and> charAt src p = [NL] \<longrightarrow> continued src lo p)
    \<and> (length src \<le> macroEnd src e
        \<or> charAt src (macroEnd src e) = [NL] \<and> \<not> continued src lo (macroEnd src e))"
  using assms
proof (induction src e rule: macroEnd.induct)
  case (1 src e)
  show ?case
  proof (cases "e < length src")
    case False
    then have "macroEnd src e = e" by (subst macroEnd.simps) simp
    with False 1(5) show ?thesis by simp
  next
    case len: True
    show ?thesis
    proof (cases "charAt src e \<noteq> [BS] \<and> charAt src e \<noteq> [NL]")
      case True
      then have eq: "macroEnd src e = macroEnd src (e + 1)"
        using len by (subst macroEnd.simps) (simp add: Let_def)
      have nc: "\<not> continued src lo (e + 1)"
      proof
        assume "continued src lo (e + 1)"
        then obtain q where q: "lo \<le> q" "q < e + 1" "charAt src q = [BS]"
          "\<forall>k. q < k \<and> k \<le> e + 1 \<longrightarrow> testSpace (charAt src k)"
          unfolding continued_iff by blast
        from q(3) True have "q \<noteq> e" by auto
        with q(2) have "q < e" by simp
        with q have "continued src lo e" unfolding continued_iff by auto
        with 1(4) show False by simp
      qed
      have nls: "\<forall>p. lo \<le> p \<and> p < e + 1 \<and> charAt src p = [NL] \<longrightarrow> continued src lo p"
      proof (intro allI impI)
        fix p assume p: "lo \<le> p \<and> p < e + 1 \<and> charAt src p = [NL]"
        with True have "p \<noteq> e" by auto
        with p have "p < e" by simp
        with p 1(5) show "continued src lo p" by simp
      qed
      from 1(3) have "lo \<le> e + 1" by simp
      from 1(1)[OF len refl True this nc nls] show ?thesis unfolding eq .
    next
      case False
      show ?thesis
      proof (cases "charAt src e = [NL]")
        case True
        then have "macroEnd src e = e" using len by (subst macroEnd.simps) (simp add: Let_def)
        with True 1(4) 1(5) show ?thesis by simp
      next
        case nnl: False
        with False have bs: "charAt src e = [BS]" by blast
        define e' where "e' = skipSpace src (e + 1)"
        have eq: "macroEnd src e = macroEnd src e'"
          using len bs unfolding e'_def by (subst macroEnd.simps) (simp add: Let_def)
        have ge: "e + 1 \<le> e'" unfolding e'_def by (rule skipSpace_ge)
        have stop: "\<not> testSpace (charAt src e')" unfolding e'_def by (rule skipSpace_stop)
        have nc: "\<not> continued src lo e'"
        proof
          assume "continued src lo e'"
          then obtain q where q: "q < e'" "\<forall>k. q < k \<and> k \<le> e' \<longrightarrow> testSpace (charAt src k)"
            unfolding continued_iff by blast
          then have "testSpace (charAt src e')" by simp
          with stop show False by simp
        qed
        have nls: "\<forall>p. lo \<le> p \<and> p < e' \<and> charAt src p = [NL] \<longrightarrow> continued src lo p"
        proof (intro allI impI)
          fix p assume p: "lo \<le> p \<and> p < e' \<and> charAt src p = [NL]"
          show "continued src lo p"
          proof (cases "p < e")
            case True
            with p 1(5) show ?thesis by simp
          next
            case False
            with p bs have lt: "e < p" by (cases "p = e") auto
            have "\<forall>k. e < k \<and> k \<le> p \<longrightarrow> testSpace (charAt src k)"
            proof (intro allI impI)
              fix k assume "e < k \<and> k \<le> p"
              with p have "e + 1 \<le> k" "k < skipSpace src (e + 1)" unfolding e'_def by simp_all
              then show "testSpace (charAt src k)" by (rule skipSpace_between)
            qed
            with 1(3) lt bs show ?thesis unfolding continued_iff by blast
          qed
        qed
        from 1(3) ge have "lo \<le> e'" by simp
        from 1(2)[OF len refl False nnl this[unfolded e'_def] nc[unfolded e'_def] nls[unfolded e'_def]]
        show ?thesis unfolding eq e'_def .
      qed
    qed
  qed
qed

lemma matchMacro_shape:
  assumes r: "r = matchMacro src i" and i: "i < length src"
  shows "start r \<le> i"
    and "content r = slice src (start r) (start r + length (content r))"
    and "i < start r + length (content r)"
    and "start r + length (content r) \<le> length src"
    and "\<forall>p. start r < p \<and> p + 1 < start r + length (content r) \<and> charAt src p = [NL]
            \<longrightarrow> continued src (start r + 1) p"
    and "start r + length (content r) = length src
         \<or> charAt src (start r + length (content r) - 1) = [NL]
            \<and> \<not> continued src (start r + 1) (start r + length (content r) - 1)"
proof -
  define s where "s = backOff src i"
  define f where "f = macroEnd src (s + 1)"
  define t where "t = min (f + 1) (length src)"
  have rs: "start r = s" and rc: "content r = slice src s (f + 1)"
    by (simp_all add: r matchMacro_def Let_def s_def f_def)
  have s: "s \<le> i" unfolding s_def by (rule backOff_le)
  have sf: "s + 1 \<le> f" unfolding f_def by (rule macroEnd_ge)
  have len: "start r + length (content r) = t"
    using s i sf by (simp add: rs rc length_slice t_def)
  have init1: "\<not> continued src (s + 1) (s + 1)" by (simp add: continued_def)
  have init2: "\<forall>p. s + 1 \<le> p \<and> p < s + 1 \<and> charAt src p = [NL] \<longrightarrow> continued src (s + 1) p"
    by auto
  have res: "(\<forall>p. s + 1 \<le> p \<and> p < f \<and> charAt src p = [NL] \<longrightarrow> continued src (s + 1) p)
    \<and> (length src \<le> f \<or> charAt src f = [NL] \<and> \<not> continued src (s + 1) f)"
    unfolding f_def by (rule macroEnd_result[OF _ init1 init2]) simp
  show "start r \<le> i" using s by (simp add: rs)
  show "content r = slice src (start r) (start r + length (content r))"
    unfolding len using sf by (simp add: rs rc t_def slice_def min_def)
  from matchMacro_progress[OF i] r
  show "i < start r + length (content r)" "start r + length (content r) \<le> length src"
    by simp_all
  show "\<forall>p. start r < p \<and> p + 1 < start r + length (content r) \<and> charAt src p = [NL]
            \<longrightarrow> continued src (start r + 1) p"
  proof (intro allI impI)
    fix p assume p: "start r < p \<and> p + 1 < start r + length (content r) \<and> charAt src p = [NL]"
    then have "s + 1 \<le> p" "p < f" unfolding len by (simp_all add: rs t_def)
    with p res show "continued src (start r + 1) p" by (simp add: rs)
  qed
  show "start r + length (content r) = length src
         \<or> charAt src (start r + length (content r) - 1) = [NL]
            \<and> \<not> continued src (start r + 1) (start r + length (content r) - 1)"
  proof (cases "length src \<le> f")
    case True
    then have "t = length src" by (simp add: t_def)
    then show ?thesis unfolding len by simp
  next
    case False
    then have "t - 1 = f" by (simp add: t_def)
    with False res show ?thesis unfolding len by (simp add: rs)
  qed
qed

text \<open>
  C5, as stated, fails: in the text \<open>#a\<close>, backslash, space, newline, \<open>b\<close>, newline the
  macro region is the whole text, so the macro continues across the newline at offset 4,
  but the character before that newline is a space, not a backslash.
\<close>

theorem C5_counterexample:
  "content (matchMacro (''#a'' @ [BS] @ '' \<newline>b\<newline>'') 0) = ''#a'' @ [BS] @ '' \<newline>b\<newline>''
   \<and> (''#a'' @ [BS] @ '' \<newline>b\<newline>'') ! 4 = NL
   \<and> (''#a'' @ [BS] @ '' \<newline>b\<newline>'') ! 3 \<noteq> BS
   \<and> 4 + 1 < length (''#a'' @ [BS] @ '' \<newline>b\<newline>'')"
  by code_simp

text \<open>
  C5, amended: the macro matcher continues a macro across a newline exactly when that
  newline lies in the run of white space that follows a backslash hit by the scan (the
  backslash need not stand directly before the newline). The region starts at the
  backed-off start, every newline inside it other than its last character is continued,
  and it ends at the end of the text or with a newline that is not continued. For the
  text \<open>#define X 1\<close>, backslash, newline, two spaces, \<open>+ 2\<close>, newline the region is
  the whole text: both lines, up to and including the last newline.
\<close>

theorem C5_macro_continuation:
  "(r = matchMacro src i \<longrightarrow> i < length src \<longrightarrow>
      start r \<le> i
      \<and> content r = slice src (start r) (start r + length (content r))
      \<and> i < start r + length (content r)
      \<and> start r + length (content r) \<le> length src
      \<and> (\<forall>p. start r < p \<and> p + 1 < start r + length (content r) \<and> charAt src p = [NL]
            \<longrightarrow> continued src (start r + 1) p)
      \<and> (start r + length (content r) = length src
          \<or> charAt src (start r + length (content r) - 1) = [NL]
             \<and> \<not> continued src (start r + 1) (start r + length (content r) - 1)))
   \<and> matchMacro (''#define X 1'' @ [BS, NL] @ ''  + 2'' @ [NL]) 0
       = \<lparr> start = 0, content = ''#define X 1'' @ [BS, NL] @ ''  + 2'' @ [NL] \<rparr>
   \<and> last (''#define X 1'' @ [BS, NL] @ ''  + 2'' @ [NL]) = NL"
proof (intro conjI impI)
  assume a: "r = matchMacro src i" "i < length src"
  note sh = matchMacro_shape[OF a]
  show "start r \<le> i" by (rule sh(1))
  show "content r = slice src (start r) (start r + length (content r))" by (rule sh(2))
  show "i < start r + length (content r)" by (rule sh(3))
  show "start r + length (content r) \<le> length src" by (rule sh(4))
  show "\<forall>p. start r < p \<and> p + 1 < start r + length (content r) \<and> charAt src p = [NL]
            \<longrightarrow> continued src (start r + 1) p" by (rule sh(5))
  show "start r + length (content r) = length src
          \<or> charAt src (start r + length (content r) - 1) = [NL]
             \<and> \<not> continued src (start r + 1) (start r + length (content r) - 1)" by (rule sh(6))
next
  show "matchMacro (''#define X 1'' @ [BS, NL] @ ''  + 2'' @ [NL]) 0
       = \<lparr> start = 0, content = ''#define X 1'' @ [BS, NL] @ ''  + 2'' @ [NL] \<rparr>"
    by code_simp
next
  show "last (''#define X 1'' @ [BS, NL] @ ''  + 2'' @ [NL]) = NL" by simp
qed

theorem C5_witness:
  "\<lparr> start = 0, content = ''#a'' @ [BS] @ '' \<newline>b\<newline>'' \<rparr> = matchMacro (''#a'' @ [BS] @ '' \<newline>b\<newline>'') 0
   \<and> 0 < length (''#a'' @ [BS] @ '' \<newline>b\<newline>'')
   \<and> charAt (''#a'' @ [BS] @ '' \<newline>b\<newline>'') 4 = [NL]
   \<and> continued (''#a'' @ [BS] @ '' \<newline>b\<newline>'')
        (start \<lparr> start = 0, content = ''#a'' @ [BS] @ '' \<newline>b\<newline>'' \<rparr> + 1) 4"
proof -
  let ?src = "''#a'' @ [BS] @ '' \<newline>b\<newline>''"
  let ?r = "\<lparr> start = 0, content = ?src \<rparr>"
  have m: "?r = matchMacro ?src 0" by code_simp
  have l: "0 < length ?src" by simp
  have n: "charAt ?src 4 = [NL]" by code_simp
  note c = C5_macro_continuation[of ?r ?src 0, THEN conjunct1, rule_format, OF m l]
  have "start ?r < 4 \<and> 4 + 1 < start ?r + length (content ?r) \<and> charAt ?src 4 = [NL]"
    using n by simp
  with c have "continued ?src (start ?r + 1) 4" by blast
  with m l n show ?thesis by blast
qed

section \<open>Dependency extraction\<close>

lemma partition_Inr: "partition src = Inr item \<Longrightarrow> \<exists>rg. scanRegions src = Inr rg \<and> item = assemble rg"
  by (auto simp: partition_def split: sum.splits)





lemma rev_upt_Suc: "m \<le> n \<Longrightarrow> rev [m..<Suc n] = n # rev [m..<n]"
  by simp

lemma not_NL_path: "is_path c \<Longrightarrow> c \<noteq> NL"
  by (auto simp: is_path_def is_word_def Let_def)

lemma not_close_path: "is_path c \<Longrightarrow> \<not> is_close c"
  by (auto simp: is_path_def is_word_def is_close_def Let_def)

lemma import_match:
  assumes p: "p \<noteq> []" "list_all is_path p"
  shows "rx_run getImportRegex (''#include <'' @ p @ ''>\<newline>'') [] = Some ([p], [])"
proof -
  have tw: "takeWhile is_path (p @ ''>\<newline>'') = p"
    using p(2) by (subst takeWhile_append2) (auto simp: list_all_iff is_path_def is_word_def Let_def)
  from p(1) have lp: "1 \<le> length p" by (cases p) auto
  have r: "rev [1..<Suc (length p)] = length p # rev [1..<length p]"
    using lp by (rule rev_upt_Suc)
  show ?thesis
    using lp by (simp add: getImportRegex_def is_space_def is_open_def is_close_def tw r)
qed

lemma macro_whole:
  assumes ne: "src \<noteq> []" and nl: "NL \<notin> set (butlast src)"
  shows "matchMacro src 0 = \<lparr> start = 0, content = src \<rparr>"
proof -
  define r where "r = matchMacro src 0"
  define t where "t = start r + length (content r)"
  from ne have l: "0 < length src" by simp
  note sh = matchMacro_shape[OF r_def l]
  from sh(1) have s0: "start r = 0" by simp
  from sh(3) sh(4) have t: "0 < t" "t \<le> length src" unfolding t_def by simp_all
  have "t = length src"
  proof (rule ccontr)
    assume n: "t \<noteq> length src"
    with sh(6) have "charAt src (t - 1) = [NL]" unfolding t_def by blast
    then have c: "src ! (t - 1) = NL" by simp
    from n t have "t - 1 < length (butlast src)" by simp
    then have "butlast src ! (t - 1) \<in> set (butlast src)" by (rule nth_mem)
    moreover have "butlast src ! (t - 1) = src ! (t - 1)"
      using \<open>t - 1 < length (butlast src)\<close> by (rule nth_butlast)
    ultimately show False using c nl by simp
  qed
  with sh(2) s0 have "content r = src" unfolding t_def by (simp add: slice_def)
  with s0 have "r = \<lparr> start = 0, content = src \<rparr>" by (cases r) simp
  then show ?thesis by (simp add: r_def)
qed

lemma scan_single_macro:
  assumes h: "startsWith src ''#'' 0" and m: "matchMacro src 0 = \<lparr> start = 0, content = src \<rparr>"
  shows "scanRegions src =
     Inr \<lparr> macros = [\<lparr> start = 0, content = src \<rparr>],
           sources = [\<lparr> start = 0, content = [] \<rparr>, \<lparr> start = length src, content = [] \<rparr>],
           comments = [], literals = [] \<rparr>"
proof -
  from h have l: "0 < length src" by (auto simp: startsWith_def)
  have a: "scanAt src 0 \<lparr> macros = [], sources = [], comments = [], literals = [] \<rparr>
    = Inr (Some \<lparr> start = 0, content = src \<rparr>,
           \<lparr> macros = [\<lparr> start = 0, content = src \<rparr>], sources = [], comments = [],
             literals = [] \<rparr>)"
    using h m by (simp add: scanAt_def languageConfig_def Let_def)
  show ?thesis
    unfolding scanRegions_def
    apply (subst scanLoop_unfold)
    apply (simp add: l a)
    apply (subst scanLoop_unfold)
    using l apply (simp add: slice_def sliceFrom_def)
    done
qed

lemma replaceAll_Nil: "rx_run rs [] [] = None \<Longrightarrow> replaceAll rs [] = ([], [])"
  by (subst replaceAll.simps) simp

lemma replaceAll_whole:
  "rx_run rs s [] = Some (caps, []) \<Longrightarrow> s \<noteq> [] \<Longrightarrow> rx_run rs [] [] = None \<Longrightarrow>
   replaceAll rs s = ([], [caps])"
  by (subst replaceAll.simps) (simp add: replaceAll_Nil)

lemma import_Nil: "rx_run getImportRegex [] [] = None"
  by (simp add: getImportRegex_def)

lemma namespace_Nil: "rx_run getNamespaceRegex [] [] = None"
  by (simp add: getNamespaceRegex_def)

lemma typedef_Nil: "rx_run getTypedefRegex [] [] = None"
  by (simp add: getTypedefRegex_def)

lemma partition_single_include:
  assumes p: "p \<noteq> []" "list_all is_path p"
  shows "partition (''#include <'' @ p @ ''>\<newline>'') =
     Inr \<lparr> macros = [\<lparr> start = 0, content = [] \<rparr>], sources = [], comments = [],
           literals = [], dependencies = [p], namespaces = [], typedefs = [] \<rparr>"
proof -
  let ?src = "''#include <'' @ p @ ''>\<newline>''"
  have nl: "NL \<notin> set (butlast ?src)"
    using p(2) by (auto simp: butlast_append list_all_iff dest: not_NL_path)
  have m: "matchMacro ?src 0 = \<lparr> start = 0, content = ?src \<rparr>"
    by (rule macro_whole[OF _ nl]) simp
  have h: "startsWith ?src ''#'' 0" by (simp add: startsWith_def)
  have r: "replaceAll getImportRegex ?src = ([], [[p]])"
    by (rule replaceAll_whole[OF import_match[OF p] _ import_Nil]) simp
  show ?thesis
    unfolding partition_def scan_single_macro[OF h m]
    using p(1)
    by (simp add: assemble_def r replaceAll_Nil namespace_Nil typedef_Nil group_def newSet_def
        filterNotEmptyPiece_def del: append.simps)
qed

section \<open>Idempotence of dependency extraction\<close>

lemma tryCounts_Some: "tryCounts f ns = Some r \<Longrightarrow> \<exists>n\<in>set ns. f n = Some r"
  by (induction ns) (auto split: option.splits)

lemma tryCounts_upt:
  "tryCounts f (rev [m..<Suc L]) = Some r \<or> tryCounts f [m..<Suc L] = Some r \<Longrightarrow>
   \<exists>n. n \<le> L \<and> f n = Some r"
proof (erule disjE)
  assume "tryCounts f (rev [m..<Suc L]) = Some r"
  from tryCounts_Some[OF this] obtain n where "n \<in> set (rev [m..<Suc L])" "f n = Some r" by blast
  then have "n \<le> L \<and> f n = Some r" by (simp del: upt_Suc)
  then show ?thesis by blast
next
  assume "tryCounts f [m..<Suc L] = Some r"
  from tryCounts_Some[OF this] obtain n where "n \<in> set [m..<Suc L]" "f n = Some r" by blast
  then have "n \<le> L \<and> f n = Some r" by (simp del: upt_Suc)
  then show ?thesis by blast
qed

lemma rx_run_step:
  "rx_run (r # rs) s caps = Some res \<Longrightarrow>
   \<exists>n caps'. n \<le> length s \<and> rx_run rs (drop n s) caps' = Some res"
proof (cases r)
  case (Lit t)
  assume a: "rx_run (r # rs) s caps = Some res"
  with Lit have t: "take (length t) s = t" and b: "rx_run rs (drop (length t) s) caps = Some res"
    by (auto split: if_splits)
  from t have "length (take (length t) s) = length t" by simp
  then have "length t \<le> length s" by (simp add: min_def split: if_splits)
  with b show ?thesis by blast
next
  case (One cls)
  assume a: "rx_run (r # rs) s caps = Some res"
  with One obtain c s' where "s = c # s'" "rx_run rs s' caps = Some res"
    by (auto split: list.splits if_splits)
  then have "1 \<le> length s \<and> rx_run rs (drop 1 s) caps = Some res" by simp
  then show ?thesis by blast
next
  case (Star cls)
  assume a: "rx_run (r # rs) s caps = Some res"
  with Star obtain n where "n \<le> length (takeWhile cls s)" "rx_run rs (drop n s) caps = Some res"
    using tryCounts_upt[of "\<lambda>n. rx_run rs (drop n s) caps" _ "length (takeWhile cls s)" res]
    by (auto simp del: upt_Suc)
  moreover have "length (takeWhile cls s) \<le> length s" by (rule length_takeWhile_le)
  ultimately have "n \<le> length s \<and> rx_run rs (drop n s) caps = Some res" by simp
  then show ?thesis by blast
next
  case (Plus cls)
  assume a: "rx_run (r # rs) s caps = Some res"
  with Plus obtain n where "n \<le> length (takeWhile cls s)" "rx_run rs (drop n s) caps = Some res"
    using tryCounts_upt[of "\<lambda>n. rx_run rs (drop n s) caps" _ "length (takeWhile cls s)" res]
    by (auto simp del: upt_Suc)
  moreover have "length (takeWhile cls s) \<le> length s" by (rule length_takeWhile_le)
  ultimately have "n \<le> length s \<and> rx_run rs (drop n s) caps = Some res" by simp
  then show ?thesis by blast
next
  case (LazyStar cls)
  assume a: "rx_run (r # rs) s caps = Some res"
  with LazyStar obtain n where "n \<le> length (takeWhile cls s)" "rx_run rs (drop n s) caps = Some res"
    using tryCounts_upt[of "\<lambda>n. rx_run rs (drop n s) caps" _ "length (takeWhile cls s)" res]
    by (auto simp del: upt_Suc)
  moreover have "length (takeWhile cls s) \<le> length s" by (rule length_takeWhile_le)
  ultimately have "n \<le> length s \<and> rx_run rs (drop n s) caps = Some res" by simp
  then show ?thesis by blast
next
  case (GroupPlus cls)
  assume a: "rx_run (r # rs) s caps = Some res"
  with GroupPlus obtain n where "n \<le> length (takeWhile cls s)"
    "rx_run rs (drop n s) (caps @ [take n s]) = Some res"
    using tryCounts_upt[of "\<lambda>n. rx_run rs (drop n s) (caps @ [take n s])" _
        "length (takeWhile cls s)" res]
    by (auto simp del: upt_Suc)
  moreover have "length (takeWhile cls s) \<le> length s" by (rule length_takeWhile_le)
  ultimately have "n \<le> length s \<and> rx_run rs (drop n s) (caps @ [take n s]) = Some res" by simp
  then show ?thesis by blast
qed

lemma rx_run_tail:
  "rx_run (rs1 @ rs2) s caps = Some res \<Longrightarrow>
   \<exists>u s' caps'. s = u @ s' \<and> rx_run rs2 s' caps' = Some res"
proof (induction rs1 arbitrary: s caps)
  case Nil
  then have "s = [] @ s \<and> rx_run rs2 s caps = Some res" by simp
  then show ?case by blast
next
  case (Cons r rs1)
  then have "rx_run (r # (rs1 @ rs2)) s caps = Some res" by simp
  then obtain n caps' where n: "rx_run (rs1 @ rs2) (drop n s) caps' = Some res"
    by (blast dest: rx_run_step)
  from Cons.IH[OF n] obtain u s' caps'' where
    "drop n s = u @ s'" "rx_run rs2 s' caps'' = Some res" by blast
  then have "s = (take n s @ u) @ s' \<and> rx_run rs2 s' caps'' = Some res"
    by (metis append_assoc append_take_drop_id)
  then show ?case by blast
qed

lemma take_takeWhile: "n \<le> length (takeWhile P xs) \<Longrightarrow> x \<in> set (take n xs) \<Longrightarrow> P x"
proof (induction xs arbitrary: n)
  case Nil
  then show ?case by simp
next
  case (Cons a xs)
  then show ?case by (cases n) (auto split: if_splits)
qed

lemma import_tail:
  assumes "rx_run [One is_close, LazyStar is_space, Lit [NL]] s caps = Some (caps', rest)"
  shows "\<exists>c ws. s = [c] @ ws @ [NL] @ rest \<and> is_close c \<and> (\<forall>x\<in>set ws. is_space x)"
proof -
  from assms obtain c s1 where s: "s = c # s1" and c: "is_close c"
    and t: "tryCounts (\<lambda>n. rx_run [Lit [NL]] (drop n s1) caps)
              [0..<Suc (length (takeWhile is_space s1))] = Some (caps', rest)"
    by (auto simp del: upt_Suc split: list.splits if_splits)
  from tryCounts_upt[of _ 0, OF disjI2, OF t] obtain n
    where n: "n \<le> length (takeWhile is_space s1)"
    and m: "rx_run [Lit [NL]] (drop n s1) caps = Some (caps', rest)" by auto
  from m have d: "take 1 (drop n s1) = [NL]" "rest = drop 1 (drop n s1)"
    by (auto split: if_splits)
  have "drop n s1 = take 1 (drop n s1) @ drop 1 (drop n s1)" by (simp only: append_take_drop_id)
  with d have "drop n s1 = [NL] @ rest" by simp
  then have "s1 = take n s1 @ [NL] @ rest" by (metis append_take_drop_id)
  with s have "s = [c] @ take n s1 @ [NL] @ rest" by simp
  moreover have "\<forall>x\<in>set (take n s1). is_space x" using n by (blast intro: take_takeWhile)
  ultimately show ?thesis using c by blast
qed

lemma import_match_shape:
  assumes "rx_run getImportRegex s [] = Some (caps, rest)"
  shows "\<exists>u c ws. s = u @ [c] @ ws @ [NL] @ rest \<and> is_close c \<and> (\<forall>x\<in>set ws. is_space x)"
proof -
  have "getImportRegex = [Lit ''#include'', Star is_space, One is_open, GroupPlus is_path]
          @ [One is_close, LazyStar is_space, Lit [NL]]"
    by (simp add: getImportRegex_def)
  with assms obtain u s' caps' where s: "s = u @ s'"
    and t: "rx_run [One is_close, LazyStar is_space, Lit [NL]] s' caps' = Some (caps, rest)"
    by (metis rx_run_tail)
  from import_tail[OF t] obtain c ws where
    "s' = [c] @ ws @ [NL] @ rest" "is_close c" "\<forall>x\<in>set ws. is_space x" by blast
  with s show ?thesis by blast
qed

lemma is_close_not_space: "is_close c \<Longrightarrow> \<not> is_space c \<and> c \<noteq> BS"
  by (auto simp: is_close_def is_space_def)

lemma is_space_not_BS: "is_space c \<Longrightarrow> c \<noteq> BS"
  by (auto simp: is_space_def)

lemma testSpace_nth: "testSpace (charAt src k) \<Longrightarrow> k < length src \<and> is_space (src ! k)"
  by (cases "k < length src") (simp_all add: charAt_def)

lemma nth_mid:
  fixes u :: "'a list"
  assumes "length u < k" "k < length u + 1 + length ws"
  shows "(u @ [c] @ ws @ rest) ! k = ws ! (k - length u - 1)"
proof -
  from assms have in_ws: "k - length u - 1 < length ws" by simp
  have "(u @ [c] @ ws @ rest) ! k = ([c] @ ws @ rest) ! (k - length u)"
    using assms by (simp add: nth_append)
  also have "\<dots> = (ws @ rest) ! (k - length u - 1)"
    using assms by (simp add: nth_Cons')
  also have "\<dots> = ws ! (k - length u - 1)"
    using in_ws by (simp add: nth_append)
  finally show ?thesis .
qed

text \<open>
  In the content of a macro region, a closing bracket or quote followed by white space and
  a newline can only stand at the very end: that newline is not continued, so the region
  ends with it.
\<close>

lemma macro_content_directive_last:
  assumes i: "i < length src"
    and m: "content (matchMacro src i) = u @ [c] @ ws @ [NL] @ v"
    and c: "is_close c" and ws: "\<forall>x\<in>set ws. is_space x"
  shows "v = []"
proof (rule ccontr)
  assume v: "v \<noteq> []"
  define r where "r = matchMacro src i"
  define s where "s = start r"
  define t where "t = s + length (content r)"
  note sh = matchMacro_shape[OF r_def i]
  have cont: "content r = u @ [c] @ ws @ [NL] @ v" using m by (simp add: r_def)
  have sl: "content r = take (t - s) (drop s src)" using sh(2) by (simp add: slice_def s_def t_def)
  have tl: "t \<le> length src" using sh(4) by (simp add: s_def t_def)
  have nth: "src ! (s + k) = content r ! k" if "k < length (content r)" for k
  proof -
    from that have "k < t - s" by (simp add: t_def)
    then have "take (t - s) (drop s src) ! k = drop s src ! k" by simp
    also have "\<dots> = src ! (s + k)" using that tl by (simp add: t_def)
    finally show ?thesis by (simp add: sl)
  qed
  define a where "a = length u"
  define p where "p = a + 1 + length ws"
  have lc: "length (content r) = p + 1 + length v" by (simp add: cont p_def a_def)
  have pa: "src ! (s + a) = c"
    using nth[of a] by (simp add: lc p_def cont a_def nth_append)
  have pp: "src ! (s + p) = NL"
    using nth[of p] by (simp add: lc cont p_def a_def nth_append)
  have pw: "is_space (src ! (s + k))" if "a < k" "k < p" for k
  proof -
    from that have k1: "length u < k" and k2: "k < length u + 1 + length ws"
      unfolding a_def p_def by simp_all
    from k1 k2 have in_ws: "k - length u - 1 < length ws" by simp
    from that have "k < length (content r)" unfolding lc by simp
    from nth[OF this] have "src ! (s + k) = (u @ [c] @ ws @ [NL] @ v) ! k"
      unfolding cont .
    also have "\<dots> = ws ! (k - length u - 1)" using k1 k2 by (rule nth_mid)
    finally have "src ! (s + k) = ws ! (k - length u - 1)" .
    moreover have "ws ! (k - length u - 1) \<in> set ws" using in_ws by (rule nth_mem)
    ultimately show ?thesis using ws by metis
  qed
  from v have "s < s + p \<and> s + p + 1 < s + length (content r) \<and> charAt src (s + p) = [NL]"
    using pp tl by (simp add: lc t_def p_def)
  with sh(5) have "continued src (s + 1) (s + p)" by (simp add: s_def)
  then obtain q where q: "s + 1 \<le> q" "q < s + p" "charAt src q = [BS]"
    "\<forall>k. q < k \<and> k \<le> s + p \<longrightarrow> testSpace (charAt src k)"
    unfolding continued_iff by blast
  from q(3) have qb: "src ! q = BS" by simp
  consider "q < s + a" | "q = s + a" | "s + a < q" by linarith
  then show False
  proof cases
    case 1
    with q(4) have "testSpace (charAt src (s + a))" by (simp add: p_def)
    then have "is_space (src ! (s + a))" by (blast dest: testSpace_nth)
    with pa c show False by (simp add: is_close_not_space)
  next
    case 2
    with qb pa c show False by (simp add: is_close_not_space)
  next
    case 3
    with q(2) have "is_space (src ! (s + (q - s)))" by (intro pw) simp_all
    with 3 qb show False by (simp add: is_space_def)
  qed
qed

lemma replaceAll_Cons_None:
  "rx_run rs (x # s) [] = None \<Longrightarrow>
   replaceAll rs (x # s) = (x # fst (replaceAll rs s), snd (replaceAll rs s))"
  by (subst replaceAll.simps) (simp add: case_prod_beta)

lemma replaceAll_no_match:
  "\<forall>j. rx_run rs (drop j s) [] = None \<Longrightarrow> replaceAll rs s = (s, [])"
proof (induction s)
  case Nil
  then have "rx_run rs [] [] = None" by simp
  then show ?case by (rule replaceAll_Nil)
next
  case (Cons x s)
  from Cons.prems have "rx_run rs (drop 0 (x # s)) [] = None" by blast
  then have h: "rx_run rs (x # s) [] = None" by simp
  have "\<forall>j. rx_run rs (drop j s) [] = None"
  proof
    fix j
    from Cons.prems have "rx_run rs (drop (Suc j) (x # s)) [] = None" by blast
    then show "rx_run rs (drop j s) [] = None" by simp
  qed
  from Cons.IH[OF this] h show ?case by (simp add: replaceAll_Cons_None)
qed

lemma replaceAll_prefix:
  assumes "\<forall>k caps rest. rx_run rs (drop k s) [] = Some (caps, rest) \<longrightarrow> rest = []"
    and n: "rx_run rs [] [] = None"
  shows "\<exists>suf. s = fst (replaceAll rs s) @ suf
           \<and> (\<forall>j < length (fst (replaceAll rs s)). rx_run rs (drop j s) [] = None)"
  using assms(1)
proof (induction s)
  case Nil
  with n show ?case by (simp add: replaceAll_Nil)
next
  case (Cons x s)
  show ?case
  proof (cases "rx_run rs (x # s) []")
    case None
    have "\<forall>k caps rest. rx_run rs (drop k s) [] = Some (caps, rest) \<longrightarrow> rest = []"
    proof (intro allI impI)
      fix k caps rest assume "rx_run rs (drop k s) [] = Some (caps, rest)"
      then have "rx_run rs (drop (Suc k) (x # s)) [] = Some (caps, rest)" by simp
      with Cons.prems show "rest = []" by blast
    qed
    from Cons.IH[OF this] obtain suf where suf: "s = fst (replaceAll rs s) @ suf"
      and inner: "\<forall>j < length (fst (replaceAll rs s)). rx_run rs (drop j s) [] = None" by blast
    have f: "fst (replaceAll rs (x # s)) = x # fst (replaceAll rs s)"
      using None by (simp add: replaceAll_Cons_None)
    have "\<forall>j < length (fst (replaceAll rs (x # s))). rx_run rs (drop j (x # s)) [] = None"
    proof (intro allI impI)
      fix j assume j: "j < length (fst (replaceAll rs (x # s)))"
      show "rx_run rs (drop j (x # s)) [] = None"
      proof (cases j)
        case 0
        with None show ?thesis by simp
      next
        case (Suc j')
        with j f have "j' < length (fst (replaceAll rs s))" by simp
        with inner Suc show ?thesis by simp
      qed
    qed
    moreover from suf f have "x # s = fst (replaceAll rs (x # s)) @ suf" by simp
    ultimately show ?thesis by blast
  next
    case (Some a)
    obtain caps rest where a: "a = (caps, rest)" by (cases a)
    with Some have m: "rx_run rs (drop 0 (x # s)) [] = Some (caps, rest)" by simp
    with Cons.prems have "rest = []" by blast
    with Some a have "rx_run rs (x # s) [] = Some (caps, [])" by simp
    from replaceAll_whole[OF this _ n] have "replaceAll rs (x # s) = ([], [caps])" by simp
    then show ?thesis by simp
  qed
qed

text \<open>
  A macro region holds at most one include directive that the pattern matches, and it
  holds it at its end: what is left after the directive is deleted has no match.
\<close>

lemma macro_content_matches_end:
  assumes i: "i < length src"
    and m: "rx_run getImportRegex (drop k (content (matchMacro src i))) [] = Some (caps, rest)"
  shows "rest = []"
proof -
  from import_match_shape[OF m] obtain u c ws where
    d: "drop k (content (matchMacro src i)) = u @ [c] @ ws @ [NL] @ rest"
    and c: "is_close c" "\<forall>x\<in>set ws. is_space x" by blast
  have "content (matchMacro src i)
      = take k (content (matchMacro src i)) @ drop k (content (matchMacro src i))" by simp
  with d have "content (matchMacro src i)
      = (take k (content (matchMacro src i)) @ u) @ [c] @ ws @ [NL] @ rest" by simp
  from macro_content_directive_last[OF i this c] show ?thesis .
qed

lemma strip_macro_idempotent:
  assumes i: "i < length src"
  shows "replaceAll getImportRegex (fst (replaceAll getImportRegex (content (matchMacro src i))))
    = (fst (replaceAll getImportRegex (content (matchMacro src i))), [])"
proof -
  define M where "M = content (matchMacro src i)"
  define out where "out = fst (replaceAll getImportRegex M)"
  have e: "\<forall>k caps rest. rx_run getImportRegex (drop k M) [] = Some (caps, rest) \<longrightarrow> rest = []"
    unfolding M_def using macro_content_matches_end[OF i] by blast
  from replaceAll_prefix[OF e import_Nil] obtain suf where suf: "M = out @ suf"
    and inner: "\<forall>j < length out. rx_run getImportRegex (drop j M) [] = None"
    unfolding out_def by blast
  have "\<forall>j. rx_run getImportRegex (drop j out) [] = None"
  proof
    fix j
    show "rx_run getImportRegex (drop j out) [] = None"
    proof (cases "j < length out")
      case False
      then show ?thesis by (simp add: import_Nil)
    next
      case True
      show ?thesis
      proof (rule ccontr)
        assume "rx_run getImportRegex (drop j out) [] \<noteq> None"
        then obtain caps rest where
          r: "rx_run getImportRegex (drop j out) [] = Some (caps, rest)" by auto
        from import_match_shape[OF r] obtain u c ws where
          d: "drop j out = u @ [c] @ ws @ [NL] @ rest"
          and c: "is_close c" "\<forall>x\<in>set ws. is_space x" by blast
        have "out = take j out @ drop j out" by simp
        with d suf have "M = (take j out @ u) @ [c] @ ws @ [NL] @ (rest @ suf)"
          by (metis append_assoc)
        from macro_content_directive_last[OF i this[unfolded M_def] c]
        have "suf = []" by simp
        with suf have "M = out" by simp
        with r inner True show False by simp
      qed
    qed
  qed
  from replaceAll_no_match[OF this] show ?thesis by (simp add: out_def M_def)
qed

lemma stripPieces_content:
  "m \<in> set (fst (stripPieces rs callback ps acc)) \<Longrightarrow>
   \<exists>p\<in>set ps. content m = fst (replaceAll rs (content p))"
proof (induction ps arbitrary: acc)
  case Nil
  then show ?case by simp
next
  case (Cons p ps)
  then show ?case by (auto simp: Let_def)
qed

lemma scanAt_macrosMatched:
  assumes "scanAt src i rg = Inr (sp, rg')" "i < length src" "macrosMatched src rg"
  shows "macrosMatched src rg'"
proof (cases sp)
  case None
  with assms(1) have "rg' = rg" by (auto dest: scanAt_None)
  with assms(3) show ?thesis by simp
next
  case (Some p)
  with assms(1) have "scanAt src i rg = Inr (Some p, rg')" by simp
  from scanAt_Some[OF this] assms(2,3) show ?thesis
    by (auto simp: macrosMatched_def)
qed

lemma scanLoop_macrosMatched:
  "scanLoop src i lastIndex rg = Inr (lastIndex', rg') \<Longrightarrow> macrosMatched src rg \<Longrightarrow>
   macrosMatched src rg'"
proof (induction src i lastIndex rg rule: scanLoop.induct)
  case (1 src i lastIndex rg)
  show ?case
  proof (cases "i < length src")
    case False
    with 1(3,4) show ?thesis by (simp add: scanLoop_unfold)
  next
    case True
    show ?thesis
    proof (cases "scanAt src i rg")
      case (Inl err)
      with True 1(3) show ?thesis by (simp add: scanLoop_unfold)
    next
      case (Inr x)
      obtain sp rg1 where x: "x = (sp, rg1)" by (cases x)
      from scanAt_macrosMatched[OF Inr[unfolded x] True 1(4)] have mm: "macrosMatched src rg1" .
      show ?thesis
      proof (cases sp)
        case None
        from 1(3) True Inr x None have "scanLoop src (i + 1) lastIndex rg1 = Inr (lastIndex', rg')"
          by (simp add: scanLoop_unfold)
        from 1(1)[OF True Inr x[symmetric] None this mm] show ?thesis .
      next
        case (Some p)
        define rg2 where "rg2 = rg1\<lparr>sources := sources rg1 @
            [\<lparr> start = lastIndex, content = slice src lastIndex (start p) \<rparr>]\<rparr>"
        define li where "li = start p + length (content p)"
        from 1(3) True Inr x Some have "scanLoop src li li rg2 = Inr (lastIndex', rg')"
          by (simp add: scanLoop_unfold rg2_def li_def)
        moreover from mm have "macrosMatched src rg2" by (simp add: macrosMatched_def rg2_def)
        ultimately show ?thesis
          using 1(2)[OF True Inr x[symmetric] Some rg2_def li_def] by blast
      qed
    qed
  qed
qed

lemma scanRegions_macrosMatched: "scanRegions src = Inr rg \<Longrightarrow> macrosMatched src rg"
proof -
  assume a: "scanRegions src = Inr rg"
  then obtain li rg0 where
    l: "scanLoop src 0 0 \<lparr> macros = [], sources = [], comments = [], literals = [] \<rparr> = Inr (li, rg0)"
    and r: "rg = rg0\<lparr>sources := sources rg0 @ [\<lparr> start = li, content = sliceFrom src li \<rparr>]\<rparr>"
    by (auto simp: scanRegions_def split: sum.splits)
  have "macrosMatched src \<lparr> macros = [], sources = [], comments = [], literals = [] \<rparr>"
    by (simp add: macrosMatched_def)
  from scanLoop_macrosMatched[OF l this] show ?thesis by (simp add: r macrosMatched_def)
qed

lemma macros_assemble:
  "macros (assemble rg) = fst (stripPieces getImportRegex (\<lambda>acc caps. acc @ [group caps 0]) (macros rg) [])"
  by (simp add: assemble_def Let_def split: prod.splits)

text \<open>
  C6, as stated, fails for plain code: deleting a match can join the text around it into
  a new match. In \<open>ususing namespace a; ing namespace b;\<close> the declaration of \<open>a\<close> is
  deleted; what is left is \<open>using namespace b;\<close>, which the namespace pattern matches.
\<close>

theorem C6_counterexample:
  "partition ''ususing namespace a; ing namespace b;'' =
     Inr \<lparr> macros = [], sources = [\<lparr> start = 0, content = ''using namespace b;'' \<rparr>],
           comments = [], literals = [], dependencies = [], namespaces = [''a''],
           typedefs = [] \<rparr>
   \<and> replaceAll getNamespaceRegex ''using namespace b;'' = ([], [[''b'']])"
  by code_simp

text \<open>
  C6, amended: dependency extraction is idempotent. For every macro content in the
  result of \<open>partition\<close>, running the include pattern again over the stripped content
  finds no match and leaves the content as it is. (A macro region holds a matching
  directive only at its end, so deleting it joins nothing.)
\<close>

theorem C6_dependency_extraction_idempotent:
  "partition src = Inr item \<longrightarrow> m \<in> set (macros item) \<longrightarrow>
     replaceAll getImportRegex (content m) = (content m, [])"
proof (intro impI)
  assume p: "partition src = Inr item" and m: "m \<in> set (macros item)"
  from p obtain rg where rg: "scanRegions src = Inr rg" "item = assemble rg"
    by (auto dest: partition_Inr)
  from m rg(2) obtain q where q: "q \<in> set (macros rg)"
    "content m = fst (replaceAll getImportRegex (content q))"
    by (auto simp: macros_assemble dest: stripPieces_content)
  from scanRegions_macrosMatched[OF rg(1)] q(1) obtain j where
    j: "j < length src" "q = matchMacro src j" by (auto simp: macrosMatched_def)
  from strip_macro_idempotent[OF j(1)] show
    "replaceAll getImportRegex (content m) = (content m, [])" by (simp add: q(2) j(2))
qed

theorem C6_witness:
  "partition (''int x;\<newline>#define A '' @ [BS, NL] @ '' #include <a.h>\<newline>'') =
     Inr \<lparr> macros = [\<lparr> start = 7, content = ''#define A '' @ [BS, NL] @ '' '' \<rparr>],
           sources = [\<lparr> start = 0, content = ''int x;\<newline>'' \<rparr>],
           comments = [], literals = [], dependencies = [''a.h''], namespaces = [],
           typedefs = [] \<rparr>
   \<and> \<lparr> start = 7, content = ''#define A '' @ [BS, NL] @ '' '' \<rparr>
       \<in> set [\<lparr> start = 7, content = ''#define A '' @ [BS, NL] @ '' '' \<rparr>]
   \<and> replaceAll getImportRegex (''#define A '' @ [BS, NL] @ '' '')
       = (''#define A '' @ [BS, NL] @ '' '', [])"
proof -
  let ?m = "\<lparr> start = 7, content = ''#define A '' @ [BS, NL] @ '' '' \<rparr>"
  let ?item = "\<lparr> macros = [?m],
           sources = [\<lparr> start = 0, content = ''int x;\<newline>'' \<rparr>],
           comments = [], literals = [], dependencies = [''a.h''], namespaces = [],
           typedefs = [] \<rparr>"
  have e: "partition (''int x;\<newline>#define A '' @ [BS, NL] @ '' #include <a.h>\<newline>'') = Inr ?item"
    by code_simp
  have i: "?m \<in> set (macros ?item)" by simp
  from C6_dependency_extraction_idempotent[
      of "''int x;\<newline>#define A '' @ [BS, NL] @ '' #include <a.h>\<newline>''" ?item ?m,
      rule_format, OF e i] e
  show ?thesis by simp
qed

section \<open>Where the scan fails and where it does not\<close>

text \<open>
  The matchers fail exactly when their scan runs to the end of the text. For the block
  comment the search for the closing token starts at the backed-off start plus the length
  of the opening token.
\<close>

lemma matchLiteral_fails_iff:
  "matchLiteral src i = Inl UnterminatedLiteral
     \<longleftrightarrow> length src \<le> literalEnd src (charAt src i) (i + 1)"
  by (simp add: matchLiteral_def Let_def)

lemma matchBlockComment_fails_iff:
  "matchBlockComment src i (opn, cls) = Inl UnterminatedBlockComment
     \<longleftrightarrow> (\<forall>k. backOff src i + length opn \<le> k \<and> k < length src \<longrightarrow> \<not> startsWith src cls k)"
proof -
  define e where
    "e = advanceWhile (\<lambda>k. \<not> startsWith src cls k) (length src) (backOff src i + length opn)"
  have f: "matchBlockComment src i (opn, cls) = Inl UnterminatedBlockComment \<longleftrightarrow> length src \<le> e"
    by (simp add: matchBlockComment_def Let_def e_def)
  show ?thesis
  proof
    assume "matchBlockComment src i (opn, cls) = Inl UnterminatedBlockComment"
    with f have "length src \<le> e" by simp
    then show "\<forall>k. backOff src i + length opn \<le> k \<and> k < length src \<longrightarrow> \<not> startsWith src cls k"
      using advanceWhile_between[of "backOff src i + length opn" _
          "\<lambda>k. \<not> startsWith src cls k" "length src"]
      unfolding e_def by (metis le_trans not_less)
  next
    assume a: "\<forall>k. backOff src i + length opn \<le> k \<and> k < length src \<longrightarrow> \<not> startsWith src cls k"
    have "length src \<le> e"
    proof (rule ccontr)
      assume "\<not> length src \<le> e"
      then have l: "e < length src" by simp
      then have "startsWith src cls e"
        using advanceWhile_end[of "\<lambda>k. \<not> startsWith src cls k" "length src"
            "backOff src i + length opn"]
        unfolding e_def by simp
      moreover have "backOff src i + length opn \<le> e" unfolding e_def by (rule advanceWhile_ge)
      ultimately show False using a l by blast
    qed
    with f show "matchBlockComment src i (opn, cls) = Inl UnterminatedBlockComment" by simp
  qed
qed

text \<open>
  Inputs without failure: the empty text, a text in which no character starts a region,
  and a macro line without a newline.
\<close>

lemma partition_empty:
  "partition [] = Inr \<lparr> macros = [], sources = [], comments = [], literals = [],
     dependencies = [], namespaces = [], typedefs = [] \<rparr>"
  by code_simp

lemma startsWith_Cons:
  "i < length src \<Longrightarrow> startsWith src (c # t) i \<Longrightarrow> src ! i = c"
  using startsWith_nth[of src "c # t" i 0] by simp

lemma scanAt_plain:
  assumes "i < length src" "src ! i \<notin> {CHR ''#'', DQ, SQ, CHR ''/''}"
  shows "scanAt src i rg = Inr (None, rg)"
proof -
  from assms have "\<not> startsWith src ''#'' i" "\<not> startsWith src [DQ] i" "\<not> startsWith src [SQ] i"
    "\<not> startsWith src ''//'' i" "\<not> startsWith src ''/*'' i"
    by (auto dest: startsWith_Cons)
  then show ?thesis by (simp add: scanAt_def languageConfig_def)
qed

lemma scanLoop_plain:
  "\<forall>k. i \<le> k \<and> k < length src \<longrightarrow> src ! k \<notin> {CHR ''#'', DQ, SQ, CHR ''/''} \<Longrightarrow>
   scanLoop src i lastIndex rg = Inr (lastIndex, rg)"
proof (induction "length src - i" arbitrary: i)
  case 0
  then show ?case by (simp add: scanLoop_unfold)
next
  case (Suc n)
  then have i: "i < length src" by simp
  with Suc.prems have "scanAt src i rg = Inr (None, rg)" by (intro scanAt_plain) auto
  moreover have "scanLoop src (i + 1) lastIndex rg = Inr (lastIndex, rg)"
    using Suc by (intro Suc.hyps) auto
  ultimately show ?case using i by (simp add: scanLoop_unfold)
qed

lemma scanRegions_plain:
  assumes "\<forall>c\<in>set src. c \<notin> {CHR ''#'', DQ, SQ, CHR ''/''}"
  shows "scanRegions src =
     Inr \<lparr> macros = [], sources = [\<lparr> start = 0, content = src \<rparr>], comments = [], literals = [] \<rparr>"
proof -
  from assms have "\<forall>k. 0 \<le> k \<and> k < length src \<longrightarrow> src ! k \<notin> {CHR ''#'', DQ, SQ, CHR ''/''}"
    by (metis nth_mem)
  from scanLoop_plain[OF this] show ?thesis by (simp add: scanRegions_def sliceFrom_def)
qed

lemma partition_plain:
  "\<forall>c\<in>set src. c \<notin> {CHR ''#'', DQ, SQ, CHR ''/''} \<Longrightarrow> \<exists>item. partition src = Inr item"
  by (simp add: partition_def scanRegions_plain)

lemma partition_macro_without_newline:
  assumes "NL \<notin> set rest"
  shows "\<exists>item. partition (CHR ''#'' # rest) = Inr item"
proof -
  let ?src = "CHR ''#'' # rest"
  from assms have "NL \<notin> set (butlast ?src)" by (auto dest: in_set_butlastD)
  then have m: "matchMacro ?src 0 = \<lparr> start = 0, content = ?src \<rparr>"
    by (intro macro_whole) simp_all
  have "startsWith ?src ''#'' 0" by (simp add: startsWith_def)
  from scan_single_macro[OF this m] show ?thesis by (simp add: partition_def)
qed

section \<open>Include directives in macro regions\<close>

subsection \<open>What a match of the pattern looks like\<close>









subsection \<open>Every directive is matched\<close>







subsection \<open>Deleting the matches\<close>






subsection \<open>Directives in macro regions\<close>






subsection \<open>The extraction pass over the macro regions\<close>















subsection \<open>A directive line anywhere in a text\<close>




subsection \<open>Two directives in a document\<close>















end
